theory Spec2Isabelle
  imports Main "HOL-Library.AList" "HOL-Library.Log_Nat"
begin

section \<open>Data model of the task manager\<close>

text \<open>
  The embedding follows \<^verbatim>\<open>src/task_manager/task_manager.py\<close>. Every public
  operation of \<^verbatim>\<open>TaskManager\<close> runs under the exclusive file lock, loads the
  whole state document, mutates it and writes it back, so an operation is a function
  from the persisted state to a result and the new persisted state. The lock is taken
  as acquired: \<^verbatim>\<open>_acquire_lock\<close> raises \<^verbatim>\<open>TimeoutError\<close> only when another
  process holds the lock for longer than \<^verbatim>\<open>lock_timeout\<close>, and then the operation
  does not start. Past the lock no branch of the operations below raises.

  A timestamp stands for the ISO-8601 string that \<^verbatim>\<open>datetime.now().isoformat()\<close>
  produces, represented by the instant it denotes, in microseconds;
  \<^verbatim>\<open>datetime.fromisoformat\<close> reads such a string back exactly. Each call of
  \<^verbatim>\<open>datetime.now()\<close> is a separate argument of the operation that makes it,
  in the order of the calls.
\<close>

datatype TaskStatus = PENDING | IN_PROGRESS | COMPLETED | FAILED | CANCELLED

type_synonym timestamp = int

datatype json =
    JNull
  | JBool bool
  | JInt int
  | JStr string
  | JTime timestamp
  | JList "json list"
  | JObj "(string \<times> json) list"

text \<open>
  A Python dictionary keeps its keys in insertion order, and so does the JSON document
  it is written to: a dictionary is an association list. \<^verbatim>\<open>d[k] = v\<close> is
  \<^const>\<open>AList.update\<close> (the value is replaced in place when the key is present and
  appended otherwise), \<^verbatim>\<open>k in d\<close> and \<^verbatim>\<open>d[k]\<close> are \<^const>\<open>map_of\<close>.
\<close>

type_synonym 'v dict = "(string \<times> 'v) list"

text \<open>\<^verbatim>\<open>d.update(e)\<close>: every item of \<open>e\<close> is stored into \<open>d\<close>, in order.\<close>

definition dict_update :: "'v dict \<Rightarrow> 'v dict \<Rightarrow> 'v dict" where
  "dict_update d e = fold (\<lambda>(k, v). AList.update k v) e d"

text \<open>
  A task, as the dictionary stored under its id. The keys \<^verbatim>\<open>task_started_at\<close>
  and \<^verbatim>\<open>updated_at\<close> may be absent (\<open>None\<close>); the other optional fields hold
  \<^verbatim>\<open>null\<close> when \<open>None\<close>. The key \<^verbatim>\<open>type\<close> is the field \<open>task_type\<close>.
  \<^verbatim>\<open>complete_task\<close> and \<^verbatim>\<open>release_task\<close> declare \<^verbatim>\<open>agent_id: str\<close>, but
  the commands of \<^verbatim>\<open>data_pipeline.py\<close> pass \<^verbatim>\<open>task.get("locked_by", "unknown")\<close>,
  which is \<^verbatim>\<open>None\<close> for a task nobody holds: their agent id is a \<open>string option\<close>,
  and \<^verbatim>\<open>task["locked_by"] != agent_id\<close> compares two optional strings.
  \<^verbatim>\<open>get_next_task\<close> is only called with a string.
\<close>

record task =
  task_type :: string
  status :: TaskStatus
  parent_id :: "string option"
  locked_by :: "string option"
  locked_at :: "timestamp option"
  completed_at :: "timestamp option"
  created_at :: timestamp
  data :: "json dict"
  task_started_at :: "timestamp option"
  updated_at :: "timestamp option"

record state =
  workflow_type :: string
  metadata :: "json dict"
  tasks :: "task dict"

section \<open>Operations\<close>

definition initialize_state :: "timestamp \<Rightarrow> timestamp \<Rightarrow> state" where
  "initialize_state now_initialized now_updated =
     \<lparr> workflow_type = ''generic'',
       metadata = [(''initialized_at'', JTime now_initialized),
                   (''last_updated'', JTime now_updated)],
       tasks = [] \<rparr>"

text \<open>\<^verbatim>\<open>_save_state\<close>: stamps \<^verbatim>\<open>last_updated\<close> and replaces the file.\<close>

definition save_state :: "timestamp \<Rightarrow> state \<Rightarrow> state" where
  "save_state now st =
     st\<lparr>metadata := AList.update ''last_updated'' (JTime now) (metadata st)\<rparr>"

text \<open>
  \<^verbatim>\<open>_check_timeouts\<close> computes
  \<^verbatim>\<open>(current_time - locked_time).total_seconds() / 3600\<close> in double precision and
  compares the quotient with \<^verbatim>\<open>task_timeout_hours\<close>. A double is represented by
  the rational number it denotes. \<open>round_double\<close> is rounding to the nearest double,
  ties to even, of a rational in the normal range of binary64 (53 significant bits; the
  times of \<^verbatim>\<open>datetime\<close> stay far inside that range): \<open>exponent x\<close> is the integer
  \<open>e\<close> with \<open>2 powi e \<le> x < 2 powi (e + 1)\<close>, found from the bit lengths of numerator and
  denominator. \<^verbatim>\<open>total_seconds()\<close> is the correctly rounded quotient of the
  microseconds by one million, the division by 3600 is rounded once more, and Python compares
  a double with an integer exactly.
\<close>

definition round_half_even :: "rat \<Rightarrow> int" where
  "round_half_even x =
     (let n = \<lfloor>x\<rfloor>; r = x - of_int n
      in if r < 1 / 2 then n else if 1 / 2 < r then n + 1 else if even n then n else n + 1)"

definition exponent :: "rat \<Rightarrow> int" where
  "exponent x =
     (let (p, q) = quotient_of x; d = bitlen p - bitlen q
      in if 2 powi d \<le> x then d else d - 1)"

definition round_double :: "rat \<Rightarrow> rat" where
  "round_double x =
     (if x = 0 then 0
      else let u = 2 powi (exponent \<bar>x\<bar> - 52)
           in sgn x * of_int (round_half_even (\<bar>x\<bar> / u)) * u)"

definition hours_elapsed :: "int \<Rightarrow> int \<Rightarrow> rat" where
  "hours_elapsed current_time locked_time =
     round_double (round_double (of_int (current_time - locked_time) / 1000000) / 3600)"

definition timed_out :: "int \<Rightarrow> timestamp \<Rightarrow> task \<Rightarrow> bool" where
  "timed_out task_timeout_hours current_time t \<longleftrightarrow>
     status t = IN_PROGRESS \<and>
     (case locked_at t of
        None \<Rightarrow> False
      | Some locked_time \<Rightarrow>
          hours_elapsed current_time locked_time > of_int task_timeout_hours)"

definition auto_release :: "task \<Rightarrow> task" where
  "auto_release t =
     t\<lparr>status := PENDING, locked_by := None, locked_at := None,
       task_started_at := None\<rparr>"

fun check_timeouts :: "int \<Rightarrow> timestamp \<Rightarrow> task dict \<Rightarrow> task dict \<times> string list" where
  "check_timeouts task_timeout_hours current_time [] = ([], [])"
| "check_timeouts task_timeout_hours current_time ((task_id, t) # rest) =
     (let (rest', released_tasks) = check_timeouts task_timeout_hours current_time rest
      in if timed_out task_timeout_hours current_time t
         then ((task_id, auto_release t) # rest', task_id # released_tasks)
         else ((task_id, t) # rest', released_tasks))"

text \<open>
  \<^verbatim>\<open>create_task\<close>. \<open>suffix\<close> is \<^verbatim>\<open>uuid.uuid4().hex[:8]\<close>, the eight
  hexadecimal digits drawn at random for this call.
\<close>

definition create_task ::
  "string \<Rightarrow> json dict \<Rightarrow> string option \<Rightarrow> string \<Rightarrow> timestamp \<Rightarrow> timestamp \<Rightarrow> state
     \<Rightarrow> string \<times> state" where
  "create_task ty new_data parent suffix now_created now_saved st =
     (let task_id = ty @ ''_'' @ suffix;
          t = \<lparr> task_type = ty, status = PENDING, parent_id = parent,
                locked_by = None, locked_at = None, completed_at = None,
                created_at = now_created, data = new_data,
                task_started_at = None, updated_at = None \<rparr>
      in (task_id, save_state now_saved (st\<lparr>tasks := AList.update task_id t (tasks st)\<rparr>)))"

text \<open>
  The type filter of \<^verbatim>\<open>get_next_task\<close>:
  \<^verbatim>\<open>if task_types and task["type"] not in task_types: continue\<close>.
  \<^verbatim>\<open>None\<close> and the empty list are both false in Python.
\<close>

definition skipped_by_filter :: "string list option \<Rightarrow> string \<Rightarrow> bool" where
  "skipped_by_filter task_types ty \<longleftrightarrow>
     (case task_types of
        None \<Rightarrow> False
      | Some tys \<Rightarrow> tys \<noteq> [] \<and> ty \<notin> set tys)"

definition assign :: "string \<Rightarrow> timestamp \<Rightarrow> timestamp \<Rightarrow> task \<Rightarrow> task" where
  "assign agent_id now_locked now_started t =
     t\<lparr>status := IN_PROGRESS, locked_by := Some agent_id,
       locked_at := Some now_locked, task_started_at := Some now_started\<rparr>"

text \<open>The claim loop of \<^verbatim>\<open>get_next_task\<close>: it stops at the first task it assigns.\<close>

fun find_next ::
  "string \<Rightarrow> string list option \<Rightarrow> timestamp \<Rightarrow> timestamp \<Rightarrow> task dict
     \<Rightarrow> (string \<times> task) option \<times> task dict" where
  "find_next agent_id task_types now_locked now_started [] = (None, [])"
| "find_next agent_id task_types now_locked now_started ((task_id, t) # rest) =
     (if status t = PENDING \<and> \<not> skipped_by_filter task_types (task_type t)
      then (Some (task_id, assign agent_id now_locked now_started t),
            (task_id, assign agent_id now_locked now_started t) # rest)
      else (let (found, rest') = find_next agent_id task_types now_locked now_started rest
            in (found, (task_id, t) # rest')))"

text \<open>
  \<^verbatim>\<open>get_next_task\<close>. The released tasks are saved before the scan; when nothing
  was released and nothing is claimed the file is not written at all.
\<close>

definition get_next_task ::
  "int \<Rightarrow> string \<Rightarrow> string list option
     \<Rightarrow> timestamp \<Rightarrow> timestamp \<Rightarrow> timestamp \<Rightarrow> timestamp \<Rightarrow> timestamp
     \<Rightarrow> state \<Rightarrow> (string \<times> task) option \<times> state" where
  "get_next_task task_timeout_hours agent_id task_types
      now_checked now_resaved now_locked now_started now_saved st =
     (let (tasks1, released) = check_timeouts task_timeout_hours now_checked (tasks st);
          loaded = st\<lparr>tasks := tasks1\<rparr>;
          (mem, file) = (if released \<noteq> []
                         then (save_state now_resaved loaded, save_state now_resaved loaded)
                         else (loaded, st));
          (found, tasks2) = find_next agent_id task_types now_locked now_started (tasks mem)
      in case found of
           None \<Rightarrow> (None, file)
         | Some claimed \<Rightarrow> (Some claimed, save_state now_saved (mem\<lparr>tasks := tasks2\<rparr>)))"

text \<open>\<^verbatim>\<open>if result_data:\<close> is false for \<^verbatim>\<open>None\<close> and for the empty dictionary.\<close>

definition merge_result :: "json dict \<Rightarrow> json dict option \<Rightarrow> json dict" where
  "merge_result d result_data =
     (case result_data of
        None \<Rightarrow> d
      | Some r \<Rightarrow> if r \<noteq> [] then dict_update d r else d)"

definition complete_task ::
  "string \<Rightarrow> string option \<Rightarrow> TaskStatus \<Rightarrow> json dict option \<Rightarrow> timestamp \<Rightarrow> timestamp \<Rightarrow> state
     \<Rightarrow> bool \<times> state" where
  "complete_task task_id agent_id final_status result_data now_completed now_saved st =
     (case map_of (tasks st) task_id of
        None \<Rightarrow> (False, st)
      | Some t \<Rightarrow>
          if locked_by t \<noteq> agent_id then (False, st)
          else (True,
                save_state now_saved
                  (st\<lparr>tasks := AList.update task_id
                        (t\<lparr>status := final_status, completed_at := Some now_completed,
                           locked_by := None, locked_at := None,
                           data := merge_result (data t) result_data\<rparr>)
                        (tasks st)\<rparr>)))"

definition release_task :: "string \<Rightarrow> string option \<Rightarrow> timestamp \<Rightarrow> state \<Rightarrow> bool \<times> state" where
  "release_task task_id agent_id now_saved st =
     (case map_of (tasks st) task_id of
        None \<Rightarrow> (False, st)
      | Some t \<Rightarrow>
          if locked_by t \<noteq> agent_id then (False, st)
          else (True,
                save_state now_saved
                  (st\<lparr>tasks := AList.update task_id
                        (t\<lparr>status := PENDING, locked_by := None, locked_at := None\<rparr>)
                        (tasks st)\<rparr>)))"

definition get_task :: "string \<Rightarrow> state \<Rightarrow> (string \<times> task) option" where
  "get_task task_id st = map_option (Pair task_id) (map_of (tasks st) task_id)"

definition update_workflow_metadata :: "json dict \<Rightarrow> timestamp \<Rightarrow> state \<Rightarrow> state" where
  "update_workflow_metadata new_metadata now_saved st =
     save_state now_saved (st\<lparr>metadata := dict_update (metadata st) new_metadata\<rparr>)"

definition update_task_data ::
  "string \<Rightarrow> json dict \<Rightarrow> timestamp \<Rightarrow> timestamp \<Rightarrow> state \<Rightarrow> bool \<times> state" where
  "update_task_data task_id new_data now_updated now_saved st =
     (case map_of (tasks st) task_id of
        None \<Rightarrow> (False, st)
      | Some t \<Rightarrow>
          (True,
           save_state now_saved
             (st\<lparr>tasks := AList.update task_id
                   (t\<lparr>data := dict_update (data t) new_data,
                      updated_at := Some now_updated\<rparr>)
                   (tasks st)\<rparr>)))"

section \<open>Sequences of calls\<close>

text \<open>
  A call of a mutating operation with its arguments, the configuration of the manager
  that makes it (\<^verbatim>\<open>task_timeout_hours\<close>, for \<^verbatim>\<open>get_next_task\<close>) and its
  clock readings. The file lock serialises the calls of all agents, so a history is a
  list of calls.
\<close>

datatype call =
    CreateTask string "json dict" "string option" string timestamp timestamp
  | GetNextTask int string "string list option"
      timestamp timestamp timestamp timestamp timestamp
  | CompleteTask string "string option" TaskStatus "json dict option" timestamp timestamp
  | ReleaseTask string "string option" timestamp
  | UpdateTaskData string "json dict" timestamp timestamp
  | UpdateWorkflowMetadata "json dict" timestamp

fun run_call :: "call \<Rightarrow> state \<Rightarrow> state" where
  "run_call (CreateTask ty d p sfx t1 t2) st = snd (create_task ty d p sfx t1 t2 st)"
| "run_call (GetNextTask h a tys t1 t2 t3 t4 t5) st =
     snd (get_next_task h a tys t1 t2 t3 t4 t5 st)"
| "run_call (CompleteTask k a s r t1 t2) st = snd (complete_task k a s r t1 t2 st)"
| "run_call (ReleaseTask k a t1) st = snd (release_task k a t1 st)"
| "run_call (UpdateTaskData k d t1 t2) st = snd (update_task_data k d t1 t2 st)"
| "run_call (UpdateWorkflowMetadata m t1) st = update_workflow_metadata m t1 st"

definition run :: "call list \<Rightarrow> state \<Rightarrow> state" where
  "run calls st = fold run_call calls st"

text \<open>
  A batch of \<^verbatim>\<open>create_task\<close> calls with the ids they return. A creation is the
  type, the data, the parent id, the random suffix and the two clock readings of one call.
\<close>

type_synonym creation =
  "string \<times> json dict \<times> string option \<times> string \<times> timestamp \<times> timestamp"

fun create_all :: "creation list \<Rightarrow> state \<Rightarrow> string list \<times> state" where
  "create_all [] st = ([], st)"
| "create_all ((ty, d, p, sfx, t1, t2) # rest) st =
     (let (task_id, st1) = create_task ty d p sfx t1 t2 st;
          (ids, st2) = create_all rest st1
      in (task_id # ids, st2))"

section \<open>Predicates of the specification\<close>

text \<open>A task that the claim loop would assign: pending, and not skipped by the filter.\<close>

definition claimable :: "string list option \<Rightarrow> task \<Rightarrow> bool" where
  "claimable task_types t \<longleftrightarrow>
     status t = PENDING \<and> \<not> skipped_by_filter task_types (task_type t)"

text \<open>The lock fields are non-empty exactly when the task is in progress.\<close>

definition lock_invariant :: "task \<Rightarrow> bool" where
  "lock_invariant t \<longleftrightarrow>
     (locked_by t \<noteq> None \<longleftrightarrow> status t = IN_PROGRESS) \<and>
     (locked_at t \<noteq> None \<longleftrightarrow> status t = IN_PROGRESS)"

text \<open>One half of it: a task that is not in progress holds no lock.\<close>

definition unlocked_unless_in_progress :: "task \<Rightarrow> bool" where
  "unlocked_unless_in_progress t \<longleftrightarrow>
     (status t = IN_PROGRESS \<or> (locked_by t = None \<and> locked_at t = None))"

definition every_task :: "(task \<Rightarrow> bool) \<Rightarrow> state \<Rightarrow> bool" where
  "every_task P st \<longleftrightarrow> list_all (\<lambda>(task_id, t). P t) (tasks st)"

text \<open>A task as \<^verbatim>\<open>create_task\<close> leaves it.\<close>

definition newly_created :: "task \<Rightarrow> bool" where
  "newly_created t \<longleftrightarrow>
     status t = PENDING \<and> locked_by t = None \<and> locked_at t = None \<and> completed_at t = None"

definition terminal :: "TaskStatus \<Rightarrow> bool" where
  "terminal s \<longleftrightarrow> s = COMPLETED \<or> s = FAILED \<or> s = CANCELLED"

text \<open>
  What one operation may do to the status of a task: a terminal status stays, and a
  pending task does not become terminal.
\<close>

definition legal_step :: "TaskStatus \<Rightarrow> TaskStatus \<Rightarrow> bool" where
  "legal_step s s' \<longleftrightarrow> (terminal s \<longrightarrow> s' = s) \<and> (s = PENDING \<longrightarrow> \<not> terminal s')"

text \<open>A \<^verbatim>\<open>complete_task\<close> call that passes \<^verbatim>\<open>TaskStatus.IN_PROGRESS\<close>.\<close>

fun completes_as_in_progress :: "call \<Rightarrow> bool" where
  "completes_as_in_progress (CompleteTask k a s r t1 t2) = (s = IN_PROGRESS)"
| "completes_as_in_progress c = False"

text \<open>A \<^verbatim>\<open>create_task\<close> call whose generated id is already a key of the store.\<close>

fun creates_existing_id :: "call \<Rightarrow> state \<Rightarrow> bool" where
  "creates_existing_id (CreateTask ty d p sfx t1 t2) st =
     (map_of (tasks st) (ty @ ''_'' @ sfx) \<noteq> None)"
| "creates_existing_id c st = False"

text \<open>The tasks as timeout reclamation leaves them, before the claim loop runs.\<close>

definition reclaimed :: "int \<Rightarrow> timestamp \<Rightarrow> state \<Rightarrow> task dict" where
  "reclaimed task_timeout_hours current_time st =
     fst (check_timeouts task_timeout_hours current_time (tasks st))"

text \<open>The type and the random suffix of a creation: what its id is built from.\<close>

definition drawn :: "creation \<Rightarrow> string \<times> string" where
  "drawn c = (case c of (ty, d, p, sfx, t1, t2) \<Rightarrow> (ty, sfx))"

text \<open>
  A \<^verbatim>\<open>complete_task\<close> or \<^verbatim>\<open>release_task\<close> call that names no agent: its
  agent id is \<^verbatim>\<open>None\<close>.
\<close>

fun names_no_agent :: "call \<Rightarrow> bool" where
  "names_no_agent (CompleteTask k a s r t1 t2) = (a = None)"
| "names_no_agent (ReleaseTask k a t1) = (a = None)"
| "names_no_agent c = False"

section \<open>Example histories\<close>

text \<open>
  The scenario of the specification: one task \<^verbatim>\<open>seed_dp\<close> is created and claimed
  by \<^verbatim>\<open>agent-1\<close>.
\<close>

definition store0 :: state where
  "store0 = initialize_state 0 1"

definition claimed_once :: "call list" where
  "claimed_once =
     [CreateTask ''seed_dp'' [] None ''ab12cd34'' 10 11,
      GetNextTask 24 ''agent-1'' None 100 101 102 103 104]"

text \<open>The task is then released by its holder and claimed again, a hundred ticks later.\<close>

definition released_and_reclaimed :: "call list" where
  "released_and_reclaimed =
     claimed_once @
     [ReleaseTask ''seed_dp_ab12cd34'' (Some ''agent-1'') 150,
      GetNextTask 24 ''agent-1'' None 200 201 202 203 204]"

text \<open>
  The holder completes the task, after its data and the workflow metadata were updated.
\<close>

definition completed_normally :: "call list" where
  "completed_normally =
     released_and_reclaimed @
     [UpdateTaskData ''seed_dp_ab12cd34'' [(''note'', JStr ''x'')] 250 251,
      CompleteTask ''seed_dp_ab12cd34'' (Some ''agent-1'') COMPLETED (Some [(''result'', JInt 1)]) 300 301,
      UpdateWorkflowMetadata [(''owner'', JStr ''ops'')] 310]"

text \<open>The holder calls \<^verbatim>\<open>complete_task\<close> with \<^verbatim>\<open>TaskStatus.IN_PROGRESS\<close>.\<close>

definition completed_as_in_progress :: "call list" where
  "completed_as_in_progress =
     claimed_once @ [CompleteTask ''seed_dp_ab12cd34'' (Some ''agent-1'') IN_PROGRESS None 300 301]"

text \<open>The task is claimed and completed, once.\<close>

definition completed_once :: "call list" where
  "completed_once =
     claimed_once @
     [CompleteTask ''seed_dp_ab12cd34'' (Some ''agent-1'') COMPLETED None 300 301]"

text \<open>
  Three tasks of two types; \<^verbatim>\<open>agent-1\<close> asks for a review task and holds the
  first one since the clock read 102.
\<close>

definition review_claimed :: "call list" where
  "review_claimed =
     [CreateTask ''review'' [] None ''00000001'' 10 11,
      CreateTask ''build'' [] (Some ''review_00000001'') ''00000002'' 12 13,
      CreateTask ''build'' [] None ''00000003'' 14 15,
      GetNextTask 24 ''agent-1'' (Some [''review'']) 100 101 102 103 104]"

text \<open>
  Two creations of the same type with different suffixes, the second naming a parent
  that does not exist; and two creations that draw the same suffix.
\<close>

definition two_creations :: "creation list" where
  "two_creations =
     [(''seed_dp'', [(''n'', JInt 1)], None, ''ab12cd34'', 10, 11),
      (''seed_dp'', [(''n'', JInt 2)], Some ''no_such_task'', ''0f0f0f0f'', 20, 21)]"

definition colliding_creations :: "creation list" where
  "colliding_creations =
     [(''seed_dp'', [(''n'', JInt 1)], None, ''ab12cd34'', 10, 11),
      (''seed_dp'', [(''n'', JInt 2)], None, ''ab12cd34'', 20, 21)]"

text \<open>One task is created and nobody claims it.\<close>

definition created_only :: "call list" where
  "created_only = [CreateTask ''seed_dp'' [] None ''ab12cd34'' 10 11]"

section \<open>Double-precision hours\<close>

text \<open>
  Rounding to a double loses at most the fraction \<open>1 / 2 ^ 53\<close> of a positive value. For a
  window of at most a million hours this is less than the microsecond by which a
  task can be late, so there the comparison of the source agrees with the exact one.
\<close>

lemma round_half_even_lower: "of_int (round_half_even y) \<ge> y - 1 / 2"
proof -
  have "of_int \<lfloor>y\<rfloor> \<le> y" "y < of_int \<lfloor>y\<rfloor> + 1" by linarith+
  then show ?thesis
    by (auto simp: round_half_even_def Let_def)
qed

lemma exponent_lower:
  assumes "0 < x"
  shows "2 powi (exponent x) \<le> x"
proof -
  obtain p q where pq: "quotient_of x = (p, q)" by (cases "quotient_of x")
  then have q: "0 < q" and x: "x = of_int p / of_int q"
    by (simp_all add: quotient_of_denom_pos quotient_of_div)
  with assms have p: "0 < p"
    by (simp add: zero_less_divide_iff)
  let ?d = "bitlen p - bitlen q"
  have low: "(2::rat) powi (?d - 1) \<le> x"
  proof -
    from bitlen_bounds [OF p] have "(2::int) ^ nat (bitlen p - 1) \<le> p" by simp
    then have "(of_int ((2::int) ^ nat (bitlen p - 1)) :: rat) \<le> of_int p"
      by (simp only: of_int_le_iff)
    then have 1: "(2::rat) ^ nat (bitlen p - 1) \<le> of_int p" by simp
    from bitlen_bounds [OF q] have "q < (2::int) ^ nat (bitlen q)" by simp
    then have "(of_int q :: rat) < of_int ((2::int) ^ nat (bitlen q))"
      by (simp only: of_int_less_iff)
    then have 2: "(of_int q :: rat) \<le> 2 ^ nat (bitlen q)" by simp
    have bp: "1 \<le> bitlen p" and bq: "0 \<le> bitlen q"
      using p bitlen_bounds [OF p] bitlen_nonneg [of q]
      by (auto simp: bitlen_def floorlog_def split: if_splits)
    have "?d - 1 = (bitlen p - 1) - bitlen q" by simp
    then have "(2::rat) powi (?d - 1) = 2 powi (bitlen p - 1) / 2 powi (bitlen q)"
      by (simp only: power_int_diff [of "2::rat", simplified])
    also have "\<dots> = 2 ^ nat (bitlen p - 1) / 2 ^ nat (bitlen q)"
      using bp bq by (simp add: power_int_def)
    also have "\<dots> \<le> of_int p / of_int q"
      using 1 2 p q by (intro frac_le) simp_all
    finally show ?thesis by (simp add: x)
  qed
  show ?thesis
    using low by (simp add: exponent_def pq Let_def)
qed

lemma exponent_upper:
  assumes "0 < x"
  shows "x < 2 powi (exponent x + 1)"
proof -
  obtain p q where pq: "quotient_of x = (p, q)" by (cases "quotient_of x")
  then have q: "0 < q" and x: "x = of_int p / of_int q"
    by (simp_all add: quotient_of_denom_pos quotient_of_div)
  with assms have p: "0 < p"
    by (simp add: zero_less_divide_iff)
  let ?d = "bitlen p - bitlen q"
  have up: "x < (2::rat) powi (?d + 1)"
  proof -
    from bitlen_bounds [OF p] have "p < (2::int) ^ nat (bitlen p)" by simp
    then have "(of_int p :: rat) < of_int ((2::int) ^ nat (bitlen p))"
      by (simp only: of_int_less_iff)
    then have 1: "(of_int p :: rat) < 2 ^ nat (bitlen p)" by simp
    from bitlen_bounds [OF q] have "(2::int) ^ nat (bitlen q - 1) \<le> q" by simp
    then have "(of_int ((2::int) ^ nat (bitlen q - 1)) :: rat) \<le> of_int q"
      by (simp only: of_int_le_iff)
    then have 2: "(2::rat) ^ nat (bitlen q - 1) \<le> of_int q" by simp
    have bp: "0 \<le> bitlen p" and bq: "1 \<le> bitlen q"
      using q bitlen_bounds [OF q] bitlen_nonneg [of p]
      by (auto simp: bitlen_def floorlog_def split: if_splits)
    have "of_int p / of_int q < (2::rat) ^ nat (bitlen p) / 2 ^ nat (bitlen q - 1)"
      using 1 2 p q by (intro frac_less) simp_all
    also have "\<dots> = 2 powi (bitlen p) / 2 powi (bitlen q - 1)"
      using bp bq by (simp add: power_int_def)
    also have "\<dots> = 2 powi (bitlen p - (bitlen q - 1))"
      by (simp only: power_int_diff [of "2::rat", simplified])
    also have "bitlen p - (bitlen q - 1) = ?d + 1" by simp
    finally show ?thesis by (simp add: x)
  qed
  show ?thesis
    using up by (simp add: exponent_def pq Let_def)
qed

text \<open>The double nearest to one tenth, and a tie that goes to the even significand.\<close>

lemma round_double_tenth: "round_double (1 / 10) = 3602879701896397 / 36028797018963968"
  by code_simp

lemma round_double_tie: "round_double (9007199254740993) = 9007199254740992"
  by code_simp

lemma round_double_lower:
  assumes "0 < x"
  shows "x * (1 - 1 / 2 ^ 53) \<le> round_double x"
proof -
  let ?e = "exponent x"
  let ?u = "(2::rat) powi (?e - 52)"
  have u: "0 < ?u" by simp
  have half: "?u / 2 = 2 powi ?e / 2 ^ 53"
    by (simp add: power_int_diff)
  have "x / ?u - 1 / 2 \<le> of_int (round_half_even (x / ?u))"
    by (rule round_half_even_lower)
  then have "(x / ?u - 1 / 2) * ?u \<le> of_int (round_half_even (x / ?u)) * ?u"
    using u by (simp only: mult_le_cancel_right_pos)
  moreover have "(x / ?u - 1 / 2) * ?u = x - ?u / 2"
    using u by (simp add: left_diff_distrib)
  ultimately have "x - ?u / 2 \<le> of_int (round_half_even (x / ?u)) * ?u"
    by simp
  moreover have "?u / 2 \<le> x / 2 ^ 53"
    unfolding half using exponent_lower [OF assms] by (simp add: divide_right_mono)
  ultimately have "x - x / 2 ^ 53 \<le> of_int (round_half_even (x / ?u)) * ?u"
    by linarith
  moreover have "round_double x = of_int (round_half_even (x / ?u)) * ?u"
    using assms by (simp add: round_double_def Let_def)
  ultimately show ?thesis by (simp add: algebra_simps)
qed

lemma hours_elapsed_exceeds:
  assumes "0 \<le> h" and "h \<le> 1000000" and "h * 3600000000 < c - l"
  shows "of_int h < hours_elapsed c l"
proof -
  let ?x = "(of_int (c - l) :: rat) / 1000000"
  let ?k = "(1::rat) - 1 / 2 ^ 53"
  from assms(3) have "h * 3600000000 + 1 \<le> c - l" by simp
  then have "(of_int (h * 3600000000 + 1) :: rat) \<le> of_int (c - l)"
    by (simp only: of_int_le_iff)
  then have x: "3600 * of_int h + 1 / 1000000 \<le> ?x"
    by simp
  have hn: "(0::rat) \<le> of_int h" using assms(1) by simp
  with x have xpos: "0 < ?x" by linarith
  have s: "?x * ?k \<le> round_double ?x"
    using xpos by (rule round_double_lower)
  have kpos: "0 < ?k" by simp
  from xpos kpos have "0 < ?x * ?k" by (rule mult_pos_pos)
  with s have spos: "0 < round_double ?x / 3600" by simp
  have y: "round_double ?x / 3600 * ?k \<le> hours_elapsed c l"
    unfolding hours_elapsed_def using spos by (rule round_double_lower)
  have "?x * ?k / 3600 * ?k \<le> round_double ?x / 3600 * ?k"
    using s kpos by (simp add: divide_right_mono mult_right_mono)
  with y have low: "?x * ?k * ?k / 3600 \<le> hours_elapsed c l" by simp
  have "(3600 * of_int h + 1 / 1000000) * (?k * ?k) \<le> ?x * (?k * ?k)"
    using x kpos by (intro mult_right_mono) simp_all
  moreover have "3600 * of_int h < (3600 * of_int h + 1 / 1000000) * (?k * ?k)"
  proof -
    from assms(2) have "(of_int h :: rat) \<le> of_int 1000000"
      by (simp only: of_int_le_iff)
    then have hb: "(of_int h :: rat) \<le> 1000000" by simp
    have "3600 * of_int h * (1 - ?k * ?k) \<le> 3600 * 1000000 * (1 - ?k * ?k)"
      using hb by (intro mult_right_mono mult_left_mono) simp_all
    also have "\<dots> < 1 / 1000000 * (?k * ?k)" by simp
    finally show ?thesis by (simp add: algebra_simps)
  qed
  ultimately have "3600 * of_int h < ?x * ?k * ?k" by (simp add: mult.assoc)
  then have "of_int h < ?x * ?k * ?k / 3600" by simp
  with low show ?thesis by linarith
qed

section \<open>Dictionaries\<close>

lemma map_of_update_same: "map_of (AList.update k v al) k = Some v"
  by (simp add: update_conv')

lemma map_of_update_other: "k' \<noteq> k \<Longrightarrow> map_of (AList.update k v al) k' = map_of al k'"
  by (simp add: update_conv')

lemma set_update_cases:
  "(k', v') \<in> set (AList.update k v al) \<Longrightarrow> (k', v') = (k, v) \<or> (k', v') \<in> set al"
  by (induction al) (auto split: if_splits)

text \<open>Storing under a key that is present replaces the first entry of that key in place.\<close>

lemma update_present_index:
  "map_of al k = Some t \<Longrightarrow>
     \<exists>i < length al. al ! i = (k, t) \<and> (\<forall>j < i. fst (al ! j) \<noteq> k) \<and>
       AList.update k v al = al[i := (k, v)]"
proof (induction al)
  case Nil
  then show ?case by simp
next
  case (Cons p al)
  show ?case
  proof (cases "fst p = k")
    case True
    with Cons.prems have "p = (k, t)" by (cases p) simp
    then have "0 < length (p # al) \<and> (p # al) ! 0 = (k, t) \<and>
       (\<forall>j < 0. fst ((p # al) ! j) \<noteq> k) \<and>
       AList.update k v (p # al) = (p # al)[0 := (k, v)]" by simp
    then show ?thesis by blast
  next
    case False
    with Cons.prems have "map_of al k = Some t" by (cases p) (simp split: if_splits)
    from Cons.IH [OF this] obtain i where i: "i < length al" "al ! i = (k, t)"
      "\<forall>j < i. fst (al ! j) \<noteq> k" "AList.update k v al = al[i := (k, v)]" by blast
    have "\<forall>j < Suc i. fst ((p # al) ! j) \<noteq> k"
      using False i(3) by (auto simp: nth_Cons split: nat.split)
    with i False have "Suc i < length (p # al) \<and> (p # al) ! Suc i = (k, t) \<and>
       (\<forall>j < Suc i. fst ((p # al) ! j) \<noteq> k) \<and>
       AList.update k v (p # al) = (p # al)[Suc i := (k, v)]"
      by (cases p) simp
    then show ?thesis by blast
  qed
qed

text \<open>\<^verbatim>\<open>d.update(e)\<close> is a shallow merge in which the later item of \<open>e\<close> wins.\<close>

lemma map_of_dict_update_rev: "map_of (dict_update d e) = map_of d ++ map_of (rev e)"
  unfolding dict_update_def
proof (induction e arbitrary: d)
  case Nil
  then show ?case by simp
next
  case (Cons p e)
  obtain k v where p: "p = (k, v)" by (cases p)
  have "map_of (fold (\<lambda>(k, v). AList.update k v) e (AList.update k v d))
          = map_of (AList.update k v d) ++ map_of (rev e)"
    by (rule Cons.IH)
  also have "\<dots> = map_of d ++ map_of (rev ((k, v) # e))"
    by (rule ext) (simp add: update_conv' map_add_def split: option.split)
  finally show ?case by (simp add: p)
qed

lemma map_of_rev_distinct: "distinct (map fst e) \<Longrightarrow> map_of (rev e) = map_of e"
  by (subst map_of_inject_set) (simp_all add: rev_map [symmetric])

lemma map_of_dict_update:
  "distinct (map fst e) \<Longrightarrow> map_of (dict_update d e) = map_of d ++ map_of e"
  by (simp add: map_of_dict_update_rev map_of_rev_distinct)

section \<open>The two loops of \<^verbatim>\<open>get_next_task\<close>\<close>

lemma tasks_save_state: "tasks (save_state now st) = tasks st"
  by (simp add: save_state_def)

lemma check_timeouts_fst:
  "fst (check_timeouts h c ts) =
     map (\<lambda>(k, t). (k, if timed_out h c t then auto_release t else t)) ts"
  by (induction ts) (auto split: prod.split)

lemma check_timeouts_snd:
  "snd (check_timeouts h c ts) = map fst (filter (\<lambda>(k, t). timed_out h c t) ts)"
  by (induction ts) (auto split: prod.split)

lemma check_timeouts_none_released:
  "snd (check_timeouts h c ts) = [] \<Longrightarrow> fst (check_timeouts h c ts) = ts"
  by (induction ts) (auto split: prod.splits if_splits)

lemma check_timeouts_length: "length (fst (check_timeouts h c ts)) = length ts"
  by (simp add: check_timeouts_fst)

lemma check_timeouts_nth:
  "i < length ts \<Longrightarrow>
     fst (check_timeouts h c ts) ! i =
       (fst (ts ! i),
        if timed_out h c (snd (ts ! i)) then auto_release (snd (ts ! i)) else snd (ts ! i))"
  by (simp add: check_timeouts_fst split: prod.split)

lemma check_timeouts_map_of:
  "map_of (fst (check_timeouts h c ts)) k =
     map_option (\<lambda>t. if timed_out h c t then auto_release t else t) (map_of ts k)"
  by (simp add: check_timeouts_fst map_of_map)

lemma find_next_cases:
  "(find_next a tys nl ns ts = (None, ts) \<and> (\<forall>p \<in> set ts. \<not> claimable tys (snd p))) \<or>
   (\<exists>i < length ts. claimable tys (snd (ts ! i)) \<and> (\<forall>j < i. \<not> claimable tys (snd (ts ! j))) \<and>
      find_next a tys nl ns ts =
        (Some (fst (ts ! i), assign a nl ns (snd (ts ! i))),
         ts[i := (fst (ts ! i), assign a nl ns (snd (ts ! i)))]))"
proof (induction ts)
  case Nil
  then show ?case by simp
next
  case (Cons p ts)
  obtain k t where p: "p = (k, t)" by (cases p)
  show ?case
  proof (cases "claimable tys t")
    case True
    then have "0 < length (p # ts) \<and> claimable tys (snd ((p # ts) ! 0)) \<and>
        (\<forall>j < 0. \<not> claimable tys (snd ((p # ts) ! j))) \<and>
        find_next a tys nl ns (p # ts) =
          (Some (fst ((p # ts) ! 0), assign a nl ns (snd ((p # ts) ! 0))),
           (p # ts)[0 := (fst ((p # ts) ! 0), assign a nl ns (snd ((p # ts) ! 0)))])"
      by (simp add: p claimable_def)
    then show ?thesis by blast
  next
    case False
    from Cons.IH show ?thesis
    proof
      assume "find_next a tys nl ns ts = (None, ts) \<and> (\<forall>p \<in> set ts. \<not> claimable tys (snd p))"
      with False have "find_next a tys nl ns (p # ts) = (None, p # ts) \<and>
          (\<forall>q \<in> set (p # ts). \<not> claimable tys (snd q))"
        by (auto simp: p claimable_def)
      then show ?thesis by blast
    next
      assume "\<exists>i < length ts. claimable tys (snd (ts ! i)) \<and>
          (\<forall>j < i. \<not> claimable tys (snd (ts ! j))) \<and>
          find_next a tys nl ns ts =
            (Some (fst (ts ! i), assign a nl ns (snd (ts ! i))),
             ts[i := (fst (ts ! i), assign a nl ns (snd (ts ! i)))])"
      then obtain i where i: "i < length ts" "claimable tys (snd (ts ! i))"
          "\<forall>j < i. \<not> claimable tys (snd (ts ! j))"
          "find_next a tys nl ns ts =
            (Some (fst (ts ! i), assign a nl ns (snd (ts ! i))),
             ts[i := (fst (ts ! i), assign a nl ns (snd (ts ! i)))])"
        by blast
      have earlier: "\<forall>j < Suc i. \<not> claimable tys (snd ((p # ts) ! j))"
        using False i(3) by (auto simp: p nth_Cons split: nat.split)
      have "find_next a tys nl ns (p # ts) =
            (Some (fst ((p # ts) ! Suc i), assign a nl ns (snd ((p # ts) ! Suc i))),
             (p # ts)[Suc i := (fst ((p # ts) ! Suc i), assign a nl ns (snd ((p # ts) ! Suc i)))])"
        using False i(4) by (auto simp: p claimable_def)
      with i(1,2) earlier show ?thesis
        by (intro disjI2 exI [of _ "Suc i"]) simp
    qed
  qed
qed

lemma find_next_none:
  "\<forall>p \<in> set ts. \<not> claimable tys (snd p) \<Longrightarrow> find_next a tys nl ns ts = (None, ts)"
  using find_next_cases [of a tys nl ns ts] by (meson nth_mem)

lemma find_next_first:
  assumes "i < length ts" and "claimable tys (snd (ts ! i))"
    and "\<forall>j < i. \<not> claimable tys (snd (ts ! j))"
  shows "find_next a tys nl ns ts =
        (Some (fst (ts ! i), assign a nl ns (snd (ts ! i))),
         ts[i := (fst (ts ! i), assign a nl ns (snd (ts ! i)))])"
proof -
  from find_next_cases [of a tys nl ns ts] assms(1,2)
  obtain i' where i': "i' < length ts" "claimable tys (snd (ts ! i'))"
      "\<forall>j < i'. \<not> claimable tys (snd (ts ! j))"
      "find_next a tys nl ns ts =
        (Some (fst (ts ! i'), assign a nl ns (snd (ts ! i'))),
         ts[i' := (fst (ts ! i'), assign a nl ns (snd (ts ! i')))])"
    by (meson nth_mem)
  have "i' = i"
    using assms(2,3) i'(2,3) by (meson linorder_neqE_nat)
  with i'(4) show ?thesis by simp
qed

lemma get_next_task_unfold:
  "get_next_task h a tys t1 t2 t3 t4 t5 st =
     (let ts1 = fst (check_timeouts h t1 (tasks st));
          mem = (if snd (check_timeouts h t1 (tasks st)) \<noteq> []
                 then save_state t2 (st\<lparr>tasks := ts1\<rparr>) else st)
      in case fst (find_next a tys t3 t4 ts1) of
           None \<Rightarrow> (None, mem)
         | Some c \<Rightarrow> (Some c, save_state t5 (mem\<lparr>tasks := snd (find_next a tys t3 t4 ts1)\<rparr>)))"
proof -
  obtain ts1 rel where ct: "check_timeouts h t1 (tasks st) = (ts1, rel)"
    by (cases "check_timeouts h t1 (tasks st)")
  obtain found ts2 where fn: "find_next a tys t3 t4 ts1 = (found, ts2)"
    by (cases "find_next a tys t3 t4 ts1")
  show ?thesis
  proof (cases "rel = []")
    case True
    with ct check_timeouts_none_released [of h t1 "tasks st"] have "ts1 = tasks st"
      by simp
    with True ct fn show ?thesis
      by (simp add: get_next_task_def Let_def split: option.split)
  next
    case False
    with ct fn show ?thesis
      by (simp add: get_next_task_def Let_def tasks_save_state split: option.split)
  qed
qed

lemma get_next_task_result:
  "fst (get_next_task h a tys t1 t2 t3 t4 t5 st) =
     fst (find_next a tys t3 t4 (fst (check_timeouts h t1 (tasks st))))"
  by (simp add: get_next_task_unfold Let_def split: option.split)

lemma get_next_task_tasks:
  "tasks (snd (get_next_task h a tys t1 t2 t3 t4 t5 st)) =
     snd (find_next a tys t3 t4 (fst (check_timeouts h t1 (tasks st))))"
  using find_next_cases [of a tys t3 t4 "fst (check_timeouts h t1 (tasks st))"]
  by (auto simp: get_next_task_unfold Let_def tasks_save_state check_timeouts_none_released
           split: option.split)

section \<open>Where the entries of the new store come from\<close>

lemma check_timeouts_entries:
  "(k, t') \<in> set (fst (check_timeouts h c ts)) \<Longrightarrow>
     (k, t') \<in> set ts \<or> (\<exists>t. (k, t) \<in> set ts \<and> timed_out h c t \<and> t' = auto_release t)"
  by (auto simp: check_timeouts_fst split: if_splits)

lemma find_next_entries:
  assumes "(k, t') \<in> set (snd (find_next a tys nl ns ts))"
  shows "(k, t') \<in> set ts \<or>
     (\<exists>t. (k, t) \<in> set ts \<and> status t = PENDING \<and> t' = assign a nl ns t)"
  using find_next_cases [of a tys nl ns ts]
proof
  assume "find_next a tys nl ns ts = (None, ts) \<and> (\<forall>p \<in> set ts. \<not> claimable tys (snd p))"
  with assms show ?thesis by simp
next
  assume "\<exists>i < length ts. claimable tys (snd (ts ! i)) \<and>
      (\<forall>j < i. \<not> claimable tys (snd (ts ! j))) \<and>
      find_next a tys nl ns ts =
        (Some (fst (ts ! i), assign a nl ns (snd (ts ! i))),
         ts[i := (fst (ts ! i), assign a nl ns (snd (ts ! i)))])"
  then obtain i where i: "i < length ts" "claimable tys (snd (ts ! i))"
      "snd (find_next a tys nl ns ts) = ts[i := (fst (ts ! i), assign a nl ns (snd (ts ! i)))]"
    by auto
  from assms i(3) have "(k, t') = (fst (ts ! i), assign a nl ns (snd (ts ! i))) \<or> (k, t') \<in> set ts"
    using set_update_subset_insert [of ts i] by auto
  then show ?thesis
  proof
    assume eq: "(k, t') = (fst (ts ! i), assign a nl ns (snd (ts ! i)))"
    have mem: "(k, snd (ts ! i)) \<in> set ts"
      using i(1) eq nth_mem [of i ts] by (cases "ts ! i") simp
    from eq i(2) have "status (snd (ts ! i)) = PENDING" "t' = assign a nl ns (snd (ts ! i))"
      by (simp_all add: claimable_def)
    with mem show ?thesis by blast
  qed simp
qed

lemma get_next_task_entries:
  assumes "(k, t') \<in> set (tasks (snd (get_next_task h a tys t1 t2 t3 t4 t5 st)))"
  shows "(k, t') \<in> set (tasks st) \<or>
     (\<exists>t. (k, t) \<in> set (tasks st) \<and> timed_out h t1 t \<and> t' = auto_release t) \<or>
     (\<exists>t. (k, t) \<in> set (tasks st) \<and> status t = PENDING \<and> t' = assign a t3 t4 t) \<or>
     (\<exists>t. (k, t) \<in> set (tasks st) \<and> timed_out h t1 t \<and> t' = assign a t3 t4 (auto_release t))"
proof -
  let ?ts1 = "fst (check_timeouts h t1 (tasks st))"
  from assms have "(k, t') \<in> set (snd (find_next a tys t3 t4 ?ts1))"
    by (simp add: get_next_task_tasks)
  then consider "(k, t') \<in> set ?ts1"
    | t where "(k, t) \<in> set ?ts1" "status t = PENDING" "t' = assign a t3 t4 t"
    using find_next_entries by blast
  then show ?thesis
  proof cases
    case 1
    then show ?thesis using check_timeouts_entries by blast
  next
    case 2
    from check_timeouts_entries [OF 2(1)] 2(2,3) show ?thesis by blast
  qed
qed

lemma create_task_entries:
  "(k, t') \<in> set (tasks (snd (create_task ty d p sfx t1 t2 st))) \<Longrightarrow>
     (k, t') \<in> set (tasks st) \<or> newly_created t'"
  by (auto simp: create_task_def Let_def tasks_save_state newly_created_def
           dest!: set_update_cases)

lemma complete_task_entries:
  "(k', t') \<in> set (tasks (snd (complete_task k a s r t1 t2 st))) \<Longrightarrow>
     (k', t') \<in> set (tasks st) \<or>
     (\<exists>t. t' = t\<lparr>status := s, completed_at := Some t1, locked_by := None, locked_at := None,
                  data := merge_result (data t) r\<rparr>)"
  by (auto simp: complete_task_def tasks_save_state split: option.splits if_splits
           dest!: set_update_cases)

lemma release_task_entries:
  "(k', t') \<in> set (tasks (snd (release_task k a t1 st))) \<Longrightarrow>
     (k', t') \<in> set (tasks st) \<or>
     (\<exists>t. t' = t\<lparr>status := PENDING, locked_by := None, locked_at := None\<rparr>)"
  by (auto simp: release_task_def tasks_save_state split: option.splits if_splits
           dest!: set_update_cases)

lemma update_task_data_entries:
  "(k', t') \<in> set (tasks (snd (update_task_data k d t1 t2 st))) \<Longrightarrow>
     (k', t') \<in> set (tasks st) \<or>
     (\<exists>t. (k, t) \<in> set (tasks st) \<and>
          t' = t\<lparr>data := dict_update (data t) d, updated_at := Some t1\<rparr>)"
  by (auto simp: update_task_data_def tasks_save_state split: option.splits
           dest!: set_update_cases map_of_SomeD)

lemma tasks_update_workflow_metadata: "tasks (update_workflow_metadata m t1 st) = tasks st"
  by (simp add: update_workflow_metadata_def tasks_save_state)

lemma every_task_iff: "every_task P st \<longleftrightarrow> (\<forall>(k, t) \<in> set (tasks st). P t)"
  by (simp add: every_task_def list_all_iff)

lemma every_task_initial: "every_task P (initialize_state t0 t1)"
  by (simp add: every_task_def initialize_state_def)

section \<open>The lock fields\<close>

lemma run_call_unlocked:
  assumes "every_task unlocked_unless_in_progress st"
  shows "every_task unlocked_unless_in_progress (run_call c st)"
proof (cases c)
  case (CreateTask ty d p sfx t1 t2)
  with assms show ?thesis
    by (auto simp: every_task_iff unlocked_unless_in_progress_def newly_created_def
             dest!: create_task_entries)
next
  case (GetNextTask h a tys t1 t2 t3 t4 t5)
  with assms show ?thesis
    by (auto simp: every_task_iff unlocked_unless_in_progress_def auto_release_def assign_def
             dest!: get_next_task_entries)
next
  case (CompleteTask k a s r t1 t2)
  with assms show ?thesis
    by (auto simp: every_task_iff unlocked_unless_in_progress_def dest!: complete_task_entries)
next
  case (ReleaseTask k a t1)
  with assms show ?thesis
    by (auto simp: every_task_iff unlocked_unless_in_progress_def dest!: release_task_entries)
next
  case (UpdateTaskData k d t1 t2)
  with assms show ?thesis
    by (auto simp: every_task_iff unlocked_unless_in_progress_def
             dest!: update_task_data_entries)
next
  case (UpdateWorkflowMetadata m t1)
  with assms show ?thesis
    by (simp add: every_task_def tasks_update_workflow_metadata)
qed

lemma run_unlocked:
  "every_task unlocked_unless_in_progress st \<Longrightarrow>
     every_task unlocked_unless_in_progress (run calls st)"
  unfolding run_def by (induction calls arbitrary: st) (simp_all add: run_call_unlocked)

lemma run_call_lock_invariant:
  assumes "every_task lock_invariant st" and "\<not> completes_as_in_progress c"
  shows "every_task lock_invariant (run_call c st)"
proof (cases c)
  case (CreateTask ty d p sfx t1 t2)
  with assms show ?thesis
    by (auto simp: every_task_iff lock_invariant_def newly_created_def
             dest!: create_task_entries)
next
  case (GetNextTask h a tys t1 t2 t3 t4 t5)
  with assms show ?thesis
    by (auto simp: every_task_iff lock_invariant_def auto_release_def assign_def
             dest!: get_next_task_entries)
next
  case (CompleteTask k a s r t1 t2)
  with assms show ?thesis
    by (auto simp: every_task_iff lock_invariant_def dest!: complete_task_entries)
next
  case (ReleaseTask k a t1)
  with assms show ?thesis
    by (auto simp: every_task_iff lock_invariant_def dest!: release_task_entries)
next
  case (UpdateTaskData k d t1 t2)
  with assms show ?thesis
    by (auto simp: every_task_iff lock_invariant_def dest!: update_task_data_entries)
next
  case (UpdateWorkflowMetadata m t1)
  with assms show ?thesis
    by (simp add: every_task_def tasks_update_workflow_metadata)
qed

lemma run_lock_invariant:
  "every_task lock_invariant st \<Longrightarrow> \<forall>c \<in> set calls. \<not> completes_as_in_progress c \<Longrightarrow>
     every_task lock_invariant (run calls st)"
  unfolding run_def by (induction calls arbitrary: st) (simp_all add: run_call_lock_invariant)

section \<open>Release and re-claim\<close>

text \<open>
  A successful claim stamps both \<^verbatim>\<open>locked_at\<close> and \<^verbatim>\<open>task_started_at\<close>
  with readings of the clock made during the call, whatever the task held before.
\<close>

lemma claim_stamps_both_times:
  assumes "fst (get_next_task h a tys t1 t2 t3 t4 t5 st) = Some (k, t')"
  shows "locked_at t' = Some t3 \<and> task_started_at t' = Some t4"
proof -
  from assms find_next_cases [of a tys t3 t4 "fst (check_timeouts h t1 (tasks st))"]
  obtain t where "t' = assign a t3 t4 t"
    by (auto simp: get_next_task_result)
  then show ?thesis by (simp add: assign_def)
qed

text \<open>
  C1. A task first claimed at T0, released by its holder and claimed again at T1 > T0
  should still show T0 in \<^verbatim>\<open>task_started_at\<close>, with T1 in \<^verbatim>\<open>locked_at\<close>.
  The code does not do this. In the history below the task is claimed with
  \<^verbatim>\<open>task_started_at\<close> 103, \<^verbatim>\<open>release_task\<close> keeps that value (as its comment
  says it should, to track the original start time), and the second claim, made a
  hundred ticks later, replaces it by 203: line 210 of the source assigns the field
  without looking whether it is set.
\<close>

theorem reclaim_overwrites_task_started_at:
  "map_option (\<lambda>t. (status t, locked_at t, task_started_at t))
     (map_of (tasks (run claimed_once store0)) ''seed_dp_ab12cd34'')
     = Some (IN_PROGRESS, Some 102, Some 103) \<and>
   map_option (\<lambda>t. (status t, locked_at t, task_started_at t))
     (map_of (tasks (run (claimed_once @ [ReleaseTask ''seed_dp_ab12cd34'' (Some ''agent-1'') 150]) store0))
        ''seed_dp_ab12cd34'')
     = Some (PENDING, None, Some 103) \<and>
   map_option (\<lambda>t. (status t, locked_at t, task_started_at t))
     (map_of (tasks (run released_and_reclaimed store0)) ''seed_dp_ab12cd34'')
     = Some (IN_PROGRESS, Some 202, Some 203)"
  by code_simp

section \<open>Completion and its authorization check\<close>




section \<open>Failed calls\<close>

text \<open>
  C7. When \<^verbatim>\<open>complete_task\<close>, \<^verbatim>\<open>release_task\<close> or \<^verbatim>\<open>update_task_data\<close>
  returns \<^verbatim>\<open>False\<close>, the persisted state is exactly the state before the call:
  every field of every task, the metadata and the workflow type.
\<close>

theorem failed_call_leaves_state:
  "(\<not> fst (complete_task k a s r t1 t2 st) \<longrightarrow> snd (complete_task k a s r t1 t2 st) = st) \<and>
   (\<not> fst (release_task k a t3 st) \<longrightarrow> snd (release_task k a t3 st) = st) \<and>
   (\<not> fst (update_task_data k d t4 t5 st) \<longrightarrow> snd (update_task_data k d t4 t5 st) = st)"
  by (simp add: complete_task_def release_task_def update_task_data_def split: option.split)

theorem failed_call_leaves_state_witness:
  "\<not> fst (complete_task ''seed_dp_ab12cd34'' (Some ''agent-2'') FAILED (Some [(''result'', JInt 1)])
            300 301 (run claimed_once store0)) \<and>
   snd (complete_task ''seed_dp_ab12cd34'' (Some ''agent-2'') FAILED (Some [(''result'', JInt 1)])
            300 301 (run claimed_once store0)) = run claimed_once store0 \<and>
   \<not> fst (release_task ''seed_dp_ab12cd34'' (Some ''agent-2'') 302 (run claimed_once store0)) \<and>
   snd (release_task ''seed_dp_ab12cd34'' (Some ''agent-2'') 302 (run claimed_once store0))
     = run claimed_once store0 \<and>
   \<not> fst (update_task_data ''seed_dp_00000000'' [(''note'', JStr ''x'')] 303 304
            (run claimed_once store0)) \<and>
   snd (update_task_data ''seed_dp_00000000'' [(''note'', JStr ''x'')] 303 304
            (run claimed_once store0)) = run claimed_once store0"
proof -
  let ?st = "run claimed_once store0"
  have c: "\<not> fst (complete_task ''seed_dp_ab12cd34'' (Some ''agent-2'') FAILED
      (Some [(''result'', JInt 1)]) 300 301 ?st)"
    by code_simp
  have r: "\<not> fst (release_task ''seed_dp_ab12cd34'' (Some ''agent-2'') 302 ?st)"
    by code_simp
  have u: "\<not> fst (update_task_data ''seed_dp_00000000'' [(''note'', JStr ''x'')] 303 304 ?st)"
    by code_simp
  from c r u
    failed_call_leaves_state [of "''seed_dp_ab12cd34''" "Some ''agent-2''" FAILED
      "Some [(''result'', JInt 1)]" 300 301 ?st 302]
    failed_call_leaves_state [of "''seed_dp_00000000''" _ _ _ _ _ ?st _
      "[(''note'', JStr ''x'')]" 303 304]
  show ?thesis by blast
qed

section \<open>The lock fields and the status\<close>

text \<open>
  C2. In every state reached from the initial empty store by calls of
  \<^verbatim>\<open>create_task\<close>, \<^verbatim>\<open>get_next_task\<close>, \<^verbatim>\<open>complete_task\<close>,
  \<^verbatim>\<open>release_task\<close>, \<^verbatim>\<open>update_task_data\<close> and
  \<^verbatim>\<open>update_workflow_metadata\<close>, a task that is not in progress has both lock
  fields empty. The converse, and so the equivalence
  "\<^verbatim>\<open>locked_by\<close> and \<^verbatim>\<open>locked_at\<close> are non-empty if and only if the status is
  \<^verbatim>\<open>in_progress\<close>", holds when no \<^verbatim>\<open>complete_task\<close> call of the history
  passed \<^verbatim>\<open>TaskStatus.IN_PROGRESS\<close> as the final status. \<^verbatim>\<open>complete_task\<close>
  writes whatever member of \<^verbatim>\<open>TaskStatus\<close> it is given and clears the lock
  fields, so without that condition the equivalence fails: the counterexample below
  ends with a task in progress whose lock fields are empty.
\<close>

theorem lock_fields_iff_in_progress:
  "every_task unlocked_unless_in_progress (run calls (initialize_state t0 t1)) \<and>
   ((\<forall>c \<in> set calls. \<not> completes_as_in_progress c) \<longrightarrow>
      every_task lock_invariant (run calls (initialize_state t0 t1)))"
  by (simp add: run_unlocked run_lock_invariant every_task_initial)

theorem lock_fields_iff_in_progress_witness:
  "list_all (\<lambda>c. \<not> completes_as_in_progress c) completed_normally \<and>
   every_task unlocked_unless_in_progress (run completed_normally (initialize_state 0 1)) \<and>
   every_task lock_invariant (run completed_normally (initialize_state 0 1))"
proof -
  have h: "list_all (\<lambda>c. \<not> completes_as_in_progress c) completed_normally"
    by code_simp
  then have "\<forall>c \<in> set completed_normally. \<not> completes_as_in_progress c"
    by (simp add: list_all_iff)
  with h lock_fields_iff_in_progress [of completed_normally 0 1] show ?thesis
    by blast
qed

theorem lock_fields_iff_in_progress_counterexample:
  "\<not> every_task lock_invariant (run completed_as_in_progress store0) \<and>
   map_option (\<lambda>t. (status t, locked_by t, locked_at t))
     (map_of (tasks (run completed_as_in_progress store0)) ''seed_dp_ab12cd34'')
     = Some (IN_PROGRESS, None, None)"
  by code_simp

section \<open>Status transitions\<close>

lemma legal_step_same: "legal_step s s"
  by (auto simp: legal_step_def terminal_def)

lemma legal_step_from_in_progress: "legal_step IN_PROGRESS s"
  by (simp add: legal_step_def terminal_def)

lemma find_next_map_of:
  "map_of ts k = Some t \<Longrightarrow>
     \<exists>t'. map_of (snd (find_next a tys nl ns ts)) k = Some t' \<and>
       (t' = t \<or> (status t = PENDING \<and> t' = assign a nl ns t))"
  by (induction ts) (auto split: prod.splits)

lemma get_next_task_step:
  assumes "map_of (tasks st) k = Some t"
  shows "\<exists>t'. map_of (tasks (snd (get_next_task h a tys t1 t2 t3 t4 t5 st))) k = Some t' \<and>
     legal_step (status t) (status t')"
proof -
  let ?t1 = "if timed_out h t1 t then auto_release t else t"
  from assms have "map_of (fst (check_timeouts h t1 (tasks st))) k = Some ?t1"
    by (simp add: check_timeouts_map_of)
  from find_next_map_of [OF this, of a tys t3 t4]
  obtain t' where t': "map_of (tasks (snd (get_next_task h a tys t1 t2 t3 t4 t5 st))) k = Some t'"
      "t' = ?t1 \<or> (status ?t1 = PENDING \<and> t' = assign a t3 t4 ?t1)"
    by (auto simp: get_next_task_tasks)
  have "legal_step (status t) (status t')"
    using t'(2)
    by (auto simp: legal_step_def terminal_def timed_out_def auto_release_def assign_def
             split: if_splits)
  with t'(1) show ?thesis by blast
qed

lemma complete_task_step:
  assumes "map_of (tasks st) k' = Some t" and "every_task unlocked_unless_in_progress st"
    and "a \<noteq> None"
  shows "\<exists>t'. map_of (tasks (snd (complete_task k a s r t1 t2 st))) k' = Some t' \<and>
     legal_step (status t) (status t')"
proof (cases "fst (complete_task k a s r t1 t2 st) \<and> k' = k")
  case True
  with assms(1) have "locked_by t = a"
    by (auto simp: complete_task_def split: option.splits if_splits)
  with assms(3) have "locked_by t \<noteq> None" by simp
  moreover from assms(1,2) have "unlocked_unless_in_progress t"
    by (auto simp: every_task_iff dest: map_of_SomeD)
  ultimately have "status t = IN_PROGRESS"
    by (auto simp: unlocked_unless_in_progress_def)
  moreover from True assms(1) have "\<exists>t'. map_of (tasks (snd (complete_task k a s r t1 t2 st))) k' = Some t'"
    by (auto simp: complete_task_def tasks_save_state map_of_update_same
             split: option.splits if_splits)
  ultimately show ?thesis by (auto simp: legal_step_from_in_progress)
next
  case False
  with assms(1) have "map_of (tasks (snd (complete_task k a s r t1 t2 st))) k' = Some t"
    by (auto simp: complete_task_def tasks_save_state map_of_update_other
             split: option.splits if_splits)
  then show ?thesis by (simp add: legal_step_same)
qed

lemma release_task_step:
  assumes "map_of (tasks st) k' = Some t" and "every_task unlocked_unless_in_progress st"
    and "a \<noteq> None"
  shows "\<exists>t'. map_of (tasks (snd (release_task k a t1 st))) k' = Some t' \<and>
     legal_step (status t) (status t')"
proof (cases "fst (release_task k a t1 st) \<and> k' = k")
  case True
  with assms(1) have "locked_by t = a"
    by (auto simp: release_task_def split: option.splits if_splits)
  with assms(3) have "locked_by t \<noteq> None" by simp
  moreover from assms(1,2) have "unlocked_unless_in_progress t"
    by (auto simp: every_task_iff dest: map_of_SomeD)
  ultimately have "status t = IN_PROGRESS"
    by (auto simp: unlocked_unless_in_progress_def)
  moreover from True assms(1) have "\<exists>t'. map_of (tasks (snd (release_task k a t1 st))) k' = Some t'"
    by (auto simp: release_task_def tasks_save_state map_of_update_same
             split: option.splits if_splits)
  ultimately show ?thesis by (auto simp: legal_step_from_in_progress)
next
  case False
  with assms(1) have "map_of (tasks (snd (release_task k a t1 st))) k' = Some t"
    by (auto simp: release_task_def tasks_save_state map_of_update_other
             split: option.splits if_splits)
  then show ?thesis by (simp add: legal_step_same)
qed

lemma update_task_data_step:
  assumes "map_of (tasks st) k' = Some t"
  shows "\<exists>t'. map_of (tasks (snd (update_task_data k d t1 t2 st))) k' = Some t' \<and>
     status t' = status t"
  using assms
  by (cases "k' = k")
     (auto simp: update_task_data_def tasks_save_state map_of_update_same map_of_update_other
           split: option.splits)

lemma create_task_step:
  assumes "map_of (tasks st) k' = Some t" and "map_of (tasks st) (ty @ ''_'' @ sfx) = None"
  shows "map_of (tasks (snd (create_task ty d p sfx t1 t2 st))) k' = Some t"
proof -
  from assms have "k' \<noteq> ty @ ''_'' @ sfx" by auto
  with assms(1) show ?thesis
    by (simp add: create_task_def Let_def tasks_save_state map_of_update_other)
qed

lemma run_call_step:
  assumes "every_task unlocked_unless_in_progress st" and "\<not> creates_existing_id c st"
    and "map_of (tasks st) k = Some t" and "\<not> names_no_agent c"
  shows "\<exists>t'. map_of (tasks (run_call c st)) k = Some t' \<and> legal_step (status t) (status t')"
proof (cases c)
  case (CreateTask ty d p sfx t1 t2)
  with assms(2) have "map_of (tasks st) (ty @ ''_'' @ sfx) = None" by simp
  from create_task_step [OF assms(3) this] CreateTask show ?thesis
    by (simp add: legal_step_same)
next
  case (GetNextTask h a tys t1 t2 t3 t4 t5)
  with get_next_task_step [OF assms(3)] show ?thesis by simp
next
  case (CompleteTask k0 a s r t1 t2)
  with assms(4) have "a \<noteq> None" by simp
  from complete_task_step [OF assms(3,1) this] CompleteTask show ?thesis by simp
next
  case (ReleaseTask k0 a t1)
  with assms(4) have "a \<noteq> None" by simp
  from release_task_step [OF assms(3,1) this] ReleaseTask show ?thesis by simp
next
  case (UpdateTaskData k0 d t1 t2)
  with update_task_data_step [OF assms(3), of k0 d t1 t2] show ?thesis
    by (auto simp: legal_step_same)
next
  case (UpdateWorkflowMetadata m t1)
  with assms(3) show ?thesis
    by (simp add: tasks_update_workflow_metadata legal_step_same)
qed

text \<open>
  C3. For every reachable state and every single operation, except a
  \<^verbatim>\<open>create_task\<close> whose generated id is already in the store and a
  \<^verbatim>\<open>complete_task\<close> or \<^verbatim>\<open>release_task\<close> whose agent id is \<^verbatim>\<open>None\<close>,
  every task of the store is still there afterwards, a task whose status was
  \<^verbatim>\<open>completed\<close>, \<^verbatim>\<open>failed\<close> or \<^verbatim>\<open>cancelled\<close> keeps that status, and a
  pending task does not become \<^verbatim>\<open>completed\<close>, \<^verbatim>\<open>failed\<close> or
  \<^verbatim>\<open>cancelled\<close>. The two exceptions are real. \<^verbatim>\<open>create_task\<close> does not look
  whether the id it has drawn is in use: when it is, the stored task is replaced by the
  new pending one, and the id that read \<^verbatim>\<open>completed\<close> reads \<^verbatim>\<open>pending\<close>. And
  the ownership test \<^verbatim>\<open>task["locked_by"] != agent_id\<close> lets a call with the agent id
  \<^verbatim>\<open>None\<close> through on every task that nobody holds: such a call completes a
  pending task that was never claimed, and releases a completed task back to pending.
  The counterexample shows all three.
\<close>

theorem status_steps_legal:
  assumes "\<not> creates_existing_id c (run calls (initialize_state t0 t1))"
    and "\<not> names_no_agent c"
    and "map_of (tasks (run calls (initialize_state t0 t1))) k = Some t"
  shows "\<exists>t'. map_of (tasks (run_call c (run calls (initialize_state t0 t1)))) k = Some t' \<and>
     legal_step (status t) (status t')"
  using run_call_step [OF run_unlocked [OF every_task_initial] assms(1,3,2)] .

theorem status_steps_legal_counterexample:
  "map_option status (map_of (tasks (run completed_once store0)) ''seed_dp_ab12cd34'')
     = Some COMPLETED \<and>
   map_option status
     (map_of (tasks (run_call (CreateTask ''seed_dp'' [] None ''ab12cd34'' 400 401)
                      (run completed_once store0))) ''seed_dp_ab12cd34'')
     = Some PENDING \<and>
   map_option status
     (map_of (tasks (run_call (ReleaseTask ''seed_dp_ab12cd34'' None 400)
                      (run completed_once store0))) ''seed_dp_ab12cd34'')
     = Some PENDING \<and>
   map_option status (map_of (tasks (run created_only store0)) ''seed_dp_ab12cd34'')
     = Some PENDING \<and>
   map_option status
     (map_of (tasks (run_call (CompleteTask ''seed_dp_ab12cd34'' None COMPLETED None 400 401)
                      (run created_only store0))) ''seed_dp_ab12cd34'')
     = Some COMPLETED"
  by code_simp

theorem status_steps_legal_witness:
  "\<not> creates_existing_id (CreateTask ''seed_dp'' [] None ''00000000'' 400 401)
       (run completed_once (initialize_state 0 1)) \<and>
   \<not> names_no_agent (CreateTask ''seed_dp'' [] None ''00000000'' 400 401) \<and>
   \<not> names_no_agent (CompleteTask ''seed_dp_ab12cd34'' (Some ''agent-1'') FAILED None 400 401) \<and>
   map_of (tasks (run completed_once (initialize_state 0 1))) ''seed_dp_ab12cd34'' =
     Some \<lparr> task_type = ''seed_dp'', status = COMPLETED, parent_id = None,
            locked_by = None, locked_at = None, completed_at = Some 300,
            created_at = 10, data = [], task_started_at = Some 103, updated_at = None \<rparr> \<and>
   (\<exists>t'. map_of (tasks (run_call (CreateTask ''seed_dp'' [] None ''00000000'' 400 401)
                         (run completed_once (initialize_state 0 1)))) ''seed_dp_ab12cd34''
           = Some t' \<and>
         legal_step COMPLETED (status t')) \<and>
   (\<exists>t'. map_of (tasks (run_call
                         (CompleteTask ''seed_dp_ab12cd34'' (Some ''agent-1'') FAILED None 400 401)
                         (run completed_once (initialize_state 0 1)))) ''seed_dp_ab12cd34''
           = Some t' \<and>
         legal_step COMPLETED (status t'))"
proof -
  let ?c = "CreateTask ''seed_dp'' [] None ''00000000'' 400 401"
  let ?d = "CompleteTask ''seed_dp_ab12cd34'' (Some ''agent-1'') FAILED None 400 401"
  let ?t = "\<lparr> task_type = ''seed_dp'', status = COMPLETED, parent_id = None,
            locked_by = None, locked_at = None, completed_at = Some 300,
            created_at = 10, data = [], task_started_at = Some 103, updated_at = None \<rparr>"
  have fresh: "\<not> creates_existing_id ?c (run completed_once (initialize_state 0 1))"
    by code_simp
  have no_create: "\<not> creates_existing_id ?d (run completed_once (initialize_state 0 1))"
    by simp
  have named: "\<not> names_no_agent ?c" "\<not> names_no_agent ?d"
    by simp_all
  have stored: "map_of (tasks (run completed_once (initialize_state 0 1))) ''seed_dp_ab12cd34''
      = Some ?t"
    by code_simp
  from status_steps_legal [OF fresh named(1) stored]
    status_steps_legal [OF no_create named(2) stored] fresh named stored
  show ?thesis
    by simp
qed

section \<open>Claiming the next task\<close>

lemma assign_auto_release:
  "assign a t3 t4 (auto_release t) =
     t\<lparr>status := IN_PROGRESS, locked_by := Some a, locked_at := Some t3,
       task_started_at := Some t4\<rparr>"
  by (simp add: assign_def auto_release_def)

text \<open>
  C5. \<^verbatim>\<open>get_next_task\<close> first runs timeout reclamation and then scans the tasks
  in storage order. When no task of the reclaimed store is pending with a type that
  passes the filter, it returns nothing and the tasks are exactly the reclaimed ones:
  the scan changes no status (the file is the old one when nothing was released, and
  the saved reclaimed store otherwise). When the task at position \<open>i\<close> of the reclaimed
  store is pending and passes the filter, and no earlier one does, the call returns that
  task with its id, now \<^verbatim>\<open>in_progress\<close> and locked by the calling agent, and
  only that entry of the store changes.
\<close>

theorem get_next_task_claims_first_match:
  "((\<forall>p \<in> set (reclaimed h t1 st). \<not> claimable tys (snd p)) \<longrightarrow>
      fst (get_next_task h a tys t1 t2 t3 t4 t5 st) = None \<and>
      tasks (snd (get_next_task h a tys t1 t2 t3 t4 t5 st)) = reclaimed h t1 st \<and>
      snd (get_next_task h a tys t1 t2 t3 t4 t5 st) =
        (if snd (check_timeouts h t1 (tasks st)) = [] then st
         else save_state t2 (st\<lparr>tasks := reclaimed h t1 st\<rparr>))) \<and>
   (\<forall>i k t. i < length (reclaimed h t1 st) \<and> reclaimed h t1 st ! i = (k, t) \<and>
        claimable tys t \<and> (\<forall>j < i. \<not> claimable tys (snd (reclaimed h t1 st ! j))) \<longrightarrow>
      fst (get_next_task h a tys t1 t2 t3 t4 t5 st) =
        Some (k, t\<lparr>status := IN_PROGRESS, locked_by := Some a, locked_at := Some t3,
                    task_started_at := Some t4\<rparr>) \<and>
      tasks (snd (get_next_task h a tys t1 t2 t3 t4 t5 st)) =
        (reclaimed h t1 st)
          [i := (k, t\<lparr>status := IN_PROGRESS, locked_by := Some a, locked_at := Some t3,
                       task_started_at := Some t4\<rparr>)])"
proof (intro conjI impI allI)
  assume none: "\<forall>p \<in> set (reclaimed h t1 st). \<not> claimable tys (snd p)"
  have unclaimed: "find_next a tys t3 t4 (fst (check_timeouts h t1 (tasks st))) =
      (None, fst (check_timeouts h t1 (tasks st)))"
    using none unfolding reclaimed_def by (rule find_next_none)
  show "fst (get_next_task h a tys t1 t2 t3 t4 t5 st) = None"
    by (simp add: get_next_task_result unclaimed)
  show "tasks (snd (get_next_task h a tys t1 t2 t3 t4 t5 st)) = reclaimed h t1 st"
    by (simp add: get_next_task_tasks unclaimed reclaimed_def)
  show "snd (get_next_task h a tys t1 t2 t3 t4 t5 st) =
        (if snd (check_timeouts h t1 (tasks st)) = [] then st
         else save_state t2 (st\<lparr>tasks := reclaimed h t1 st\<rparr>))"
    by (simp add: get_next_task_unfold unclaimed reclaimed_def Let_def)
next
  fix i k t
  assume first: "i < length (reclaimed h t1 st) \<and> reclaimed h t1 st ! i = (k, t) \<and>
        claimable tys t \<and> (\<forall>j < i. \<not> claimable tys (snd (reclaimed h t1 st ! j)))"
  then have "find_next a tys t3 t4 (reclaimed h t1 st) =
      (Some (k, assign a t3 t4 t), (reclaimed h t1 st)[i := (k, assign a t3 t4 t)])"
    using find_next_first [of i "reclaimed h t1 st" tys a t3 t4] by simp
  then show "fst (get_next_task h a tys t1 t2 t3 t4 t5 st) =
        Some (k, t\<lparr>status := IN_PROGRESS, locked_by := Some a, locked_at := Some t3,
                    task_started_at := Some t4\<rparr>)"
    and "tasks (snd (get_next_task h a tys t1 t2 t3 t4 t5 st)) =
        (reclaimed h t1 st)
          [i := (k, t\<lparr>status := IN_PROGRESS, locked_by := Some a, locked_at := Some t3,
                       task_started_at := Some t4\<rparr>)]"
    by (simp_all add: get_next_task_result get_next_task_tasks reclaimed_def assign_def)
qed

theorem get_next_task_claims_first_match_witness:
  "list_all (\<lambda>p. \<not> claimable (Some [''deploy'']) (snd p)) (reclaimed 24 200 (run review_claimed store0)) \<and>
   fst (get_next_task 24 ''agent-2'' (Some [''deploy'']) 200 201 202 203 204
          (run review_claimed store0)) = None \<and>
   tasks (snd (get_next_task 24 ''agent-2'' (Some [''deploy'']) 200 201 202 203 204
          (run review_claimed store0))) = reclaimed 24 200 (run review_claimed store0) \<and>
   1 < length (reclaimed 24 200 (run review_claimed store0)) \<and>
   reclaimed 24 200 (run review_claimed store0) ! 1 =
     (''build_00000002'',
      \<lparr> task_type = ''build'', status = PENDING, parent_id = Some ''review_00000001'',
        locked_by = None, locked_at = None, completed_at = None,
        created_at = 12, data = [], task_started_at = None, updated_at = None \<rparr>) \<and>
   \<not> claimable (Some [''build'']) (snd (reclaimed 24 200 (run review_claimed store0) ! 0)) \<and>
   fst (get_next_task 24 ''agent-2'' (Some [''build'']) 200 201 202 203 204
          (run review_claimed store0)) =
     Some (''build_00000002'',
      \<lparr> task_type = ''build'', status = IN_PROGRESS, parent_id = Some ''review_00000001'',
        locked_by = Some ''agent-2'', locked_at = Some 202, completed_at = None,
        created_at = 12, data = [], task_started_at = Some 203, updated_at = None \<rparr>)"
proof -
  let ?st = "run review_claimed store0"
  let ?ts1 = "reclaimed 24 200 ?st"
  let ?t = "\<lparr> task_type = ''build'', status = PENDING, parent_id = Some ''review_00000001'',
        locked_by = None, locked_at = None, completed_at = None,
        created_at = 12, data = [], task_started_at = None, updated_at = None \<rparr>"
  have none: "list_all (\<lambda>p. \<not> claimable (Some [''deploy'']) (snd p)) ?ts1"
    by code_simp
  then have none': "\<forall>p \<in> set ?ts1. \<not> claimable (Some [''deploy'']) (snd p)"
    by (simp add: list_all_iff)
  have len: "1 < length ?ts1" by code_simp
  have nth: "?ts1 ! 1 = (''build_00000002'', ?t)" by code_simp
  have cl: "claimable (Some [''build'']) ?t" by code_simp
  have earlier: "\<not> claimable (Some [''build'']) (snd (?ts1 ! 0))" by code_simp
  then have earlier': "\<forall>j < 1. \<not> claimable (Some [''build'']) (snd (?ts1 ! j))"
    by simp
  from get_next_task_claims_first_match [of 24 200 ?st "Some [''deploy'']" "''agent-2''"
      201 202 203 204, THEN conjunct1] none'
  have A: "fst (get_next_task 24 ''agent-2'' (Some [''deploy'']) 200 201 202 203 204 ?st) = None \<and>
      tasks (snd (get_next_task 24 ''agent-2'' (Some [''deploy'']) 200 201 202 203 204 ?st)) = ?ts1"
    by blast
  from get_next_task_claims_first_match [of 24 200 ?st "Some [''build'']" "''agent-2''"
      201 202 203 204, THEN conjunct2, rule_format, of 1 "''build_00000002''" ?t]
    len nth cl earlier'
  have B: "fst (get_next_task 24 ''agent-2'' (Some [''build'']) 200 201 202 203 204 ?st) =
      Some (''build_00000002'', ?t\<lparr>status := IN_PROGRESS, locked_by := Some ''agent-2'',
              locked_at := Some 202, task_started_at := Some 203\<rparr>)"
    by blast
  from none A len nth earlier B show ?thesis by simp
qed

section \<open>Timeout reclamation\<close>

lemma timed_out_reclaimed_nth:
  assumes "i < length (tasks st)" and "tasks st ! i = (k, t)" and "timed_out h t1 t"
  shows "reclaimed h t1 st ! i = (k, auto_release t)"
  using assms by (simp add: reclaimed_def check_timeouts_nth)

text \<open>
  C4. When \<^verbatim>\<open>get_next_task\<close> runs with the clock reading \<open>t1\<close> and a
  \<^verbatim>\<open>task_timeout_hours\<close> between 0 and 1000000 (the default is 24), a task that is
  \<^verbatim>\<open>in_progress\<close> with \<^verbatim>\<open>locked_at\<close> more than \<^verbatim>\<open>task_timeout_hours\<close>
  hours before \<open>t1\<close> (times in microseconds) is pending in the reclaimed store, with
  \<^verbatim>\<open>locked_by\<close> and \<^verbatim>\<open>locked_at\<close> cleared and \<^verbatim>\<open>task_started_at\<close>
  removed, and its id is among the released ones (so the store is saved). This happens
  before the claim loop: at the end of the call the task is either that pending task
  or the same task claimed by the caller; if its type passes the filter the call does
  claim some task, and it claims this one when no earlier task of the reclaimed store
  is claimable. Without the bound on the window the statement fails, because the
  elapsed hours are a rounded double: with a window of 4772186 hours a task that is
  one microsecond late is not released, as the counterexample computes.
\<close>

theorem get_next_task_reclaims_timed_out:
  assumes "i < length (tasks st)" and "tasks st ! i = (k, t)"
    and "status t = IN_PROGRESS" and "locked_at t = Some locked_time"
    and "t1 - locked_time > h * 3600000000"
    and "0 \<le> h" and "h \<le> 1000000"
  shows "reclaimed h t1 st ! i =
           (k, t\<lparr>status := PENDING, locked_by := None, locked_at := None,
                  task_started_at := None\<rparr>) \<and>
         k \<in> set (snd (check_timeouts h t1 (tasks st))) \<and>
         (tasks (snd (get_next_task h a tys t1 t2 t3 t4 t5 st)) ! i =
            (k, t\<lparr>status := PENDING, locked_by := None, locked_at := None,
                   task_started_at := None\<rparr>) \<or>
          tasks (snd (get_next_task h a tys t1 t2 t3 t4 t5 st)) ! i =
            (k, t\<lparr>status := IN_PROGRESS, locked_by := Some a, locked_at := Some t3,
                   task_started_at := Some t4\<rparr>)) \<and>
         (\<not> skipped_by_filter tys (task_type t) \<longrightarrow>
            fst (get_next_task h a tys t1 t2 t3 t4 t5 st) \<noteq> None) \<and>
         (\<not> skipped_by_filter tys (task_type t) \<and>
          (\<forall>j < i. \<not> claimable tys (snd (reclaimed h t1 st ! j))) \<longrightarrow>
            fst (get_next_task h a tys t1 t2 t3 t4 t5 st) =
              Some (k, t\<lparr>status := IN_PROGRESS, locked_by := Some a, locked_at := Some t3,
                          task_started_at := Some t4\<rparr>))"
proof -
  let ?ts1 = "reclaimed h t1 st"
  let ?r = "get_next_task h a tys t1 t2 t3 t4 t5 st"
  from assms(6,7,5) have "of_int h < hours_elapsed t1 locked_time"
    by (rule hours_elapsed_exceeds)
  with assms(3,4) have out: "timed_out h t1 t"
    by (simp add: timed_out_def)
  have len: "i < length ?ts1"
    using assms(1) by (simp add: reclaimed_def check_timeouts_length)
  have nth: "?ts1 ! i = (k, auto_release t)"
    using assms(1,2) out by (rule timed_out_reclaimed_nth)
  have A: "?ts1 ! i = (k, t\<lparr>status := PENDING, locked_by := None, locked_at := None,
                  task_started_at := None\<rparr>)"
    using nth by (simp add: auto_release_def)
  have "(k, t) \<in> set (tasks st)"
    using assms(1,2) nth_mem by fastforce
  with out have B: "k \<in> set (snd (check_timeouts h t1 (tasks st)))"
    by (force simp: check_timeouts_snd)
  have tasks_r: "tasks (snd ?r) = snd (find_next a tys t3 t4 ?ts1)"
    by (simp add: get_next_task_tasks reclaimed_def)
  have res_r: "fst ?r = fst (find_next a tys t3 t4 ?ts1)"
    by (simp add: get_next_task_result reclaimed_def)
  have C: "tasks (snd ?r) ! i = (k, auto_release t) \<or>
           tasks (snd ?r) ! i = (k, assign a t3 t4 (auto_release t))"
    using find_next_cases [of a tys t3 t4 ?ts1]
  proof
    assume "find_next a tys t3 t4 ?ts1 = (None, ?ts1) \<and>
        (\<forall>p \<in> set ?ts1. \<not> claimable tys (snd p))"
    with nth tasks_r show ?thesis by simp
  next
    assume "\<exists>i' < length ?ts1. claimable tys (snd (?ts1 ! i')) \<and>
        (\<forall>j < i'. \<not> claimable tys (snd (?ts1 ! j))) \<and>
        find_next a tys t3 t4 ?ts1 =
          (Some (fst (?ts1 ! i'), assign a t3 t4 (snd (?ts1 ! i'))),
           ?ts1[i' := (fst (?ts1 ! i'), assign a t3 t4 (snd (?ts1 ! i')))])"
    then obtain i' where i': "i' < length ?ts1"
        "tasks (snd ?r) = ?ts1[i' := (fst (?ts1 ! i'), assign a t3 t4 (snd (?ts1 ! i')))]"
      using tasks_r by auto
    show ?thesis
    proof (cases "i' = i")
      case True
      with i' nth len show ?thesis by simp
    next
      case False
      with i' nth show ?thesis by simp
    qed
  qed
  have claimable_i: "\<not> skipped_by_filter tys (task_type t) \<Longrightarrow> claimable tys (snd (?ts1 ! i))"
    using nth by (simp add: claimable_def auto_release_def)
  have D: "\<not> skipped_by_filter tys (task_type t) \<longrightarrow> fst ?r \<noteq> None"
  proof
    assume "\<not> skipped_by_filter tys (task_type t)"
    then have "claimable tys (snd (?ts1 ! i))" by (rule claimable_i)
    with len have "\<not> (\<forall>p \<in> set ?ts1. \<not> claimable tys (snd p))"
      using nth_mem by blast
    with find_next_cases [of a tys t3 t4 ?ts1] res_r show "fst ?r \<noteq> None"
      by auto
  qed
  have E: "\<not> skipped_by_filter tys (task_type t) \<and>
          (\<forall>j < i. \<not> claimable tys (snd (?ts1 ! j))) \<longrightarrow>
            fst ?r = Some (k, assign a t3 t4 (auto_release t))"
  proof
    assume h: "\<not> skipped_by_filter tys (task_type t) \<and>
          (\<forall>j < i. \<not> claimable tys (snd (?ts1 ! j)))"
    then have "claimable tys (snd (?ts1 ! i))" using claimable_i by blast
    from find_next_first [OF len this, of a t3 t4] h nth res_r
    show "fst ?r = Some (k, assign a t3 t4 (auto_release t))" by simp
  qed
  from A B C D E show ?thesis
    by (simp add: assign_auto_release) (simp add: auto_release_def)
qed

theorem get_next_task_reclaims_timed_out_witness:
  "0 < length (tasks (run review_claimed store0)) \<and>
   tasks (run review_claimed store0) ! 0 =
     (''review_00000001'',
      \<lparr> task_type = ''review'', status = IN_PROGRESS, parent_id = None,
        locked_by = Some ''agent-1'', locked_at = Some 102, completed_at = None,
        created_at = 10, data = [], task_started_at = Some 103, updated_at = None \<rparr>) \<and>
   (86400000103::int) - 102 > 24 * 3600000000 \<and>
   reclaimed 24 86400000103 (run review_claimed store0) ! 0 =
     (''review_00000001'',
      \<lparr> task_type = ''review'', status = PENDING, parent_id = None,
        locked_by = None, locked_at = None, completed_at = None,
        created_at = 10, data = [], task_started_at = None, updated_at = None \<rparr>) \<and>
   ''review_00000001'' \<in> set (snd (check_timeouts 24 86400000103 (tasks (run review_claimed store0)))) \<and>
   fst (get_next_task 24 ''agent-2'' (Some [''review''])
          86400000103 86400000104 86400000105 86400000106 86400000107
          (run review_claimed store0)) =
     Some (''review_00000001'',
      \<lparr> task_type = ''review'', status = IN_PROGRESS, parent_id = None,
        locked_by = Some ''agent-2'', locked_at = Some 86400000105, completed_at = None,
        created_at = 10, data = [], task_started_at = Some 86400000106,
        updated_at = None \<rparr>)"
proof -
  let ?st = "run review_claimed store0"
  let ?t = "\<lparr> task_type = ''review'', status = IN_PROGRESS, parent_id = None,
        locked_by = Some ''agent-1'', locked_at = Some 102, completed_at = None,
        created_at = 10, data = [], task_started_at = Some 103, updated_at = None \<rparr>"
  have len: "0 < length (tasks ?st)" by code_simp
  have nth: "tasks ?st ! 0 = (''review_00000001'', ?t)" by code_simp
  have st: "status ?t = IN_PROGRESS" by simp
  have la: "locked_at ?t = Some 102" by simp
  have late: "(86400000103::int) - 102 > 24 * 3600000000" by simp
  have nf: "\<not> skipped_by_filter (Some [''review'']) (task_type ?t)"
    by (simp add: skipped_by_filter_def)
  have window: "(0::int) \<le> 24" "(24::int) \<le> 1000000" by simp_all
  note inst = get_next_task_reclaims_timed_out [OF len nth st la late window,
      of "''agent-2''" "Some [''review'']" 86400000104 86400000105 86400000106 86400000107]
  from inst nf len nth late show ?thesis by simp
qed

theorem get_next_task_reclaims_timed_out_counterexample:
  "map_option (\<lambda>t. (status t, locked_by t, locked_at t, task_started_at t))
     (map_of (tasks (run review_claimed store0)) ''review_00000001'')
     = Some (IN_PROGRESS, Some ''agent-1'', Some 102, Some 103) \<and>
   (17179869600000103::int) - 102 > 4772186 * 3600000000 \<and>
   snd (check_timeouts 4772186 17179869600000103 (tasks (run review_claimed store0))) = [] \<and>
   fst (get_next_task 4772186 ''agent-2'' (Some [''review''])
          17179869600000103 17179869600000104 17179869600000105 17179869600000106
          17179869600000107 (run review_claimed store0)) = None \<and>
   map_option (\<lambda>t. (status t, locked_by t, locked_at t, task_started_at t))
     (map_of (tasks (snd (get_next_task 4772186 ''agent-2'' (Some [''review''])
          17179869600000103 17179869600000104 17179869600000105 17179869600000106
          17179869600000107 (run review_claimed store0)))) ''review_00000001'')
     = Some (IN_PROGRESS, Some ''agent-1'', Some 102, Some 103)"
  by code_simp

section \<open>The empty type filter\<close>

lemma find_next_empty_filter:
  "find_next a (Some []) nl ns ts = find_next a None nl ns ts"
  by (induction ts) (auto simp: skipped_by_filter_def)

text \<open>
  C9. A call of \<^verbatim>\<open>get_next_task\<close> with the empty list of task types gives the
  result and the state of the call with no filter. When the store has a pending task,
  the call claims the first pending task of the reclaimed store, whatever its type: it
  returns that task, in progress and locked by the caller, and the tasks of the new
  store are the reclaimed ones with that entry replaced by the claimed task.
\<close>

theorem empty_filter_is_no_filter:
  "get_next_task h a (Some []) t1 t2 t3 t4 t5 st = get_next_task h a None t1 t2 t3 t4 t5 st \<and>
   ((\<exists>p \<in> set (tasks st). status (snd p) = PENDING) \<longrightarrow>
      (\<exists>i < length (reclaimed h t1 st).
          status (snd (reclaimed h t1 st ! i)) = PENDING \<and>
          (\<forall>j < i. status (snd (reclaimed h t1 st ! j)) \<noteq> PENDING) \<and>
          fst (get_next_task h a (Some []) t1 t2 t3 t4 t5 st) =
            Some (fst (reclaimed h t1 st ! i),
                  (snd (reclaimed h t1 st ! i))
                    \<lparr>status := IN_PROGRESS, locked_by := Some a, locked_at := Some t3,
                     task_started_at := Some t4\<rparr>) \<and>
          tasks (snd (get_next_task h a (Some []) t1 t2 t3 t4 t5 st)) =
            (reclaimed h t1 st)
              [i := (fst (reclaimed h t1 st ! i),
                     (snd (reclaimed h t1 st ! i))
                       \<lparr>status := IN_PROGRESS, locked_by := Some a, locked_at := Some t3,
                        task_started_at := Some t4\<rparr>)]))"
proof (intro conjI impI)
  show "get_next_task h a (Some []) t1 t2 t3 t4 t5 st = get_next_task h a None t1 t2 t3 t4 t5 st"
    by (simp add: get_next_task_def find_next_empty_filter)
next
  let ?ts1 = "reclaimed h t1 st"
  let ?r = "get_next_task h a (Some []) t1 t2 t3 t4 t5 st"
  assume "\<exists>p \<in> set (tasks st). status (snd p) = PENDING"
  then obtain k t where p: "(k, t) \<in> set (tasks st)" "status t = PENDING" by auto
  then have "\<not> timed_out h t1 t" by (simp add: timed_out_def)
  with p(1) have "(k, t) \<in> set ?ts1"
    by (force simp: reclaimed_def check_timeouts_fst)
  with p(2) have some: "\<not> (\<forall>p \<in> set ?ts1. \<not> claimable (Some []) (snd p))"
    by (force simp: claimable_def skipped_by_filter_def)
  have cl: "\<And>u. claimable (Some []) u \<longleftrightarrow> status u = PENDING"
    by (simp add: claimable_def skipped_by_filter_def)
  from find_next_cases [of a "Some []" t3 t4 ?ts1] some
  obtain i where i: "i < length ?ts1" "claimable (Some []) (snd (?ts1 ! i))"
      "\<forall>j < i. \<not> claimable (Some []) (snd (?ts1 ! j))"
      "find_next a (Some []) t3 t4 ?ts1 =
         (Some (fst (?ts1 ! i), assign a t3 t4 (snd (?ts1 ! i))),
          ?ts1[i := (fst (?ts1 ! i), assign a t3 t4 (snd (?ts1 ! i)))])"
    by auto
  have returned: "fst ?r = Some (fst (?ts1 ! i), assign a t3 t4 (snd (?ts1 ! i)))"
    using i(4) by (simp add: get_next_task_result reclaimed_def)
  have stored: "tasks (snd ?r) = ?ts1[i := (fst (?ts1 ! i), assign a t3 t4 (snd (?ts1 ! i)))]"
    using i(4) by (simp add: get_next_task_tasks reclaimed_def)
  from i(1-3) returned stored
  show "\<exists>i < length ?ts1.
          status (snd (?ts1 ! i)) = PENDING \<and>
          (\<forall>j < i. status (snd (?ts1 ! j)) \<noteq> PENDING) \<and>
          fst ?r =
            Some (fst (?ts1 ! i),
                  (snd (?ts1 ! i))
                    \<lparr>status := IN_PROGRESS, locked_by := Some a, locked_at := Some t3,
                     task_started_at := Some t4\<rparr>) \<and>
          tasks (snd ?r) =
            ?ts1
              [i := (fst (?ts1 ! i),
                     (snd (?ts1 ! i))
                       \<lparr>status := IN_PROGRESS, locked_by := Some a, locked_at := Some t3,
                        task_started_at := Some t4\<rparr>)]"
    unfolding cl assign_def by blast
qed

theorem empty_filter_is_no_filter_witness:
  "list_ex (\<lambda>p. status (snd p) = PENDING) (tasks (run review_claimed store0)) \<and>
   get_next_task 24 ''agent-2'' (Some []) 200 201 202 203 204 (run review_claimed store0) =
     get_next_task 24 ''agent-2'' None 200 201 202 203 204 (run review_claimed store0) \<and>
   (\<exists>i < length (reclaimed 24 200 (run review_claimed store0)).
      status (snd (reclaimed 24 200 (run review_claimed store0) ! i)) = PENDING \<and>
      (\<forall>j < i. status (snd (reclaimed 24 200 (run review_claimed store0) ! j)) \<noteq> PENDING) \<and>
      fst (get_next_task 24 ''agent-2'' (Some []) 200 201 202 203 204
             (run review_claimed store0)) =
        Some (fst (reclaimed 24 200 (run review_claimed store0) ! i),
              (snd (reclaimed 24 200 (run review_claimed store0) ! i))
                \<lparr>status := IN_PROGRESS, locked_by := Some ''agent-2'', locked_at := Some 202,
                 task_started_at := Some 203\<rparr>) \<and>
      tasks (snd (get_next_task 24 ''agent-2'' (Some []) 200 201 202 203 204
             (run review_claimed store0))) =
        (reclaimed 24 200 (run review_claimed store0))
          [i := (fst (reclaimed 24 200 (run review_claimed store0) ! i),
                 (snd (reclaimed 24 200 (run review_claimed store0) ! i))
                   \<lparr>status := IN_PROGRESS, locked_by := Some ''agent-2'',
                    locked_at := Some 202, task_started_at := Some 203\<rparr>)]) \<and>
   map_option (\<lambda>t. (task_type t, status t, locked_by t))
     (map_of (tasks (snd (get_next_task 24 ''agent-2'' (Some []) 200 201 202 203 204
             (run review_claimed store0)))) ''build_00000002'')
     = Some (''build'', IN_PROGRESS, Some ''agent-2'')"
proof -
  let ?st = "run review_claimed store0"
  have ex: "list_ex (\<lambda>p. status (snd p) = PENDING) (tasks ?st)"
    by code_simp
  then have "\<exists>p \<in> set (tasks ?st). status (snd p) = PENDING"
    by (simp add: list_ex_iff)
  moreover have "map_option (\<lambda>t. (task_type t, status t, locked_by t))
     (map_of (tasks (snd (get_next_task 24 ''agent-2'' (Some []) 200 201 202 203 204 ?st)))
        ''build_00000002'') = Some (''build'', IN_PROGRESS, Some ''agent-2'')"
    by code_simp
  ultimately show ?thesis
    using ex empty_filter_is_no_filter [of 24 "''agent-2''" 200 201 202 203 204 ?st]
    by blast
qed

section \<open>Updating the data of a task\<close>

text \<open>
  C10. When the task id is in the store, \<^verbatim>\<open>update_task_data\<close> returns
  \<^verbatim>\<open>True\<close> and the new state is the old one with three changes: in the entry
  of that task, which keeps its place, \<^verbatim>\<open>data\<close> is the shallow merge of the old
  data with the given mapping (the given mapping wins) and \<^verbatim>\<open>updated_at\<close> is the
  clock reading; and \<^verbatim>\<open>last_updated\<close> of the metadata is the reading made by
  \<^verbatim>\<open>_save_state\<close>. The status, the lock fields, \<^verbatim>\<open>parent_id\<close>, the other
  timestamps, every other task, the other metadata and the workflow type are as before.
  \<^verbatim>\<open>updated_at\<close> is written by no other operation.
\<close>

theorem update_task_data_frame:
  assumes "map_of (tasks st) k = Some t"
  shows "(\<exists>i < length (tasks st). tasks st ! i = (k, t) \<and>
           update_task_data k d t1 t2 st =
             (True,
              st\<lparr>metadata := AList.update ''last_updated'' (JTime t2) (metadata st),
                 tasks := (tasks st)[i := (k, t\<lparr>data := dict_update (data t) d,
                                                updated_at := Some t1\<rparr>)]\<rparr>)) \<and>
         (distinct (map fst d) \<longrightarrow>
            map_of (dict_update (data t) d) = map_of (data t) ++ map_of d) \<and>
         map_of (metadata (snd (update_task_data k d t1 t2 st))) ''last_updated''
           = Some (JTime t2) \<and>
         (\<forall>key. key \<noteq> ''last_updated'' \<longrightarrow>
            map_of (metadata (snd (update_task_data k d t1 t2 st))) key
              = map_of (metadata st) key)"
proof -
  let ?t' = "t\<lparr>data := dict_update (data t) d, updated_at := Some t1\<rparr>"
  from update_present_index [OF assms, of ?t']
  obtain i where i: "i < length (tasks st)" "tasks st ! i = (k, t)"
      "AList.update k ?t' (tasks st) = (tasks st)[i := (k, ?t')]"
    by blast
  have eq: "update_task_data k d t1 t2 st =
      (True, st\<lparr>metadata := AList.update ''last_updated'' (JTime t2) (metadata st),
                tasks := (tasks st)[i := (k, ?t')]\<rparr>)"
    using assms i(3) by (simp add: update_task_data_def save_state_def)
  have md: "metadata (snd (update_task_data k d t1 t2 st)) =
      AList.update ''last_updated'' (JTime t2) (metadata st)"
    by (simp add: eq)
  from i(1,2) eq show ?thesis
    unfolding md by (auto simp: map_of_dict_update map_of_update_same map_of_update_other)
qed

theorem update_task_data_frame_witness:
  "map_of (tasks (run claimed_once store0)) ''seed_dp_ab12cd34'' =
     Some \<lparr> task_type = ''seed_dp'', status = IN_PROGRESS, parent_id = None,
            locked_by = Some ''agent-1'', locked_at = Some 102, completed_at = None,
            created_at = 10, data = [], task_started_at = Some 103, updated_at = None \<rparr> \<and>
   (\<exists>i < length (tasks (run claimed_once store0)).
      update_task_data ''seed_dp_ab12cd34'' [(''note'', JStr ''x'')] 250 251
          (run claimed_once store0) =
        (True,
         (run claimed_once store0)
           \<lparr>metadata := AList.update ''last_updated'' (JTime 251)
                          (metadata (run claimed_once store0)),
            tasks := (tasks (run claimed_once store0))
              [i := (''seed_dp_ab12cd34'',
                     \<lparr> task_type = ''seed_dp'', status = IN_PROGRESS, parent_id = None,
                       locked_by = Some ''agent-1'', locked_at = Some 102,
                       completed_at = None, created_at = 10,
                       data = [(''note'', JStr ''x'')], task_started_at = Some 103,
                       updated_at = Some 250 \<rparr>)]\<rparr>)) \<and>
   map_of (metadata (snd (update_task_data ''seed_dp_ab12cd34'' [(''note'', JStr ''x'')] 250 251
          (run claimed_once store0)))) ''last_updated'' = Some (JTime 251)"
proof -
  let ?st = "run claimed_once store0"
  let ?t = "\<lparr> task_type = ''seed_dp'', status = IN_PROGRESS, parent_id = None,
            locked_by = Some ''agent-1'', locked_at = Some 102, completed_at = None,
            created_at = 10, data = [], task_started_at = Some 103, updated_at = None \<rparr>"
  have stored: "map_of (tasks ?st) ''seed_dp_ab12cd34'' = Some ?t"
    by code_simp
  let ?d = "[(''note'', JStr ''x'')]"
  let ?t' = "\<lparr> task_type = ''seed_dp'', status = IN_PROGRESS, parent_id = None,
            locked_by = Some ''agent-1'', locked_at = Some 102, completed_at = None,
            created_at = 10, data = [(''note'', JStr ''x'')], task_started_at = Some 103,
            updated_at = Some 250 \<rparr>"
  have merged: "?t\<lparr>data := dict_update (data ?t) ?d, updated_at := Some 250\<rparr> = ?t'"
    by (simp add: dict_update_def)
  note inst = update_task_data_frame [OF stored, of ?d 250 251]
  from inst have "\<exists>i < length (tasks ?st).
      update_task_data ''seed_dp_ab12cd34'' ?d 250 251 ?st =
        (True, ?st\<lparr>metadata := AList.update ''last_updated'' (JTime 251) (metadata ?st),
                  tasks := (tasks ?st)[i := (''seed_dp_ab12cd34'',
                     ?t\<lparr>data := dict_update (data ?t) ?d, updated_at := Some 250\<rparr>)]\<rparr>)"
    by blast
  then have frame: "\<exists>i < length (tasks ?st).
      update_task_data ''seed_dp_ab12cd34'' ?d 250 251 ?st =
        (True, ?st\<lparr>metadata := AList.update ''last_updated'' (JTime 251) (metadata ?st),
                  tasks := (tasks ?st)[i := (''seed_dp_ab12cd34'', ?t')]\<rparr>)"
    unfolding merged .
  from inst have stamp: "map_of (metadata (snd (update_task_data ''seed_dp_ab12cd34'' ?d 250 251
      ?st))) ''last_updated'' = Some (JTime 251)"
    by blast
  from stored frame stamp show ?thesis by blast
qed

section \<open>Creating tasks\<close>

lemma create_all_Cons:
  "create_all ((ty, d, p, sfx, t1, t2) # rest) st =
     (fst (create_task ty d p sfx t1 t2 st)
        # fst (create_all rest (snd (create_task ty d p sfx t1 t2 st))),
      snd (create_all rest (snd (create_task ty d p sfx t1 t2 st))))"
  by (simp split: prod.split)

lemma fst_create_task: "fst (create_task ty d p sfx t1 t2 st) = ty @ ''_'' @ sfx"
  by (simp add: create_task_def Let_def)

lemma create_all_ids:
  "fst (create_all cs st) = map (\<lambda>(ty, d, p, sfx, t1, t2). ty @ ''_'' @ sfx) cs"
proof (induction cs arbitrary: st)
  case Nil
  then show ?case by simp
next
  case (Cons c cs)
  obtain ty d p sfx t1 t2 where c: "c = (ty, d, p, sfx, t1, t2)"
    by (cases c) auto
  show ?case
    unfolding c create_all_Cons by (simp add: Cons.IH fst_create_task)
qed

lemma task_id_inject:
  assumes "length sfx = length sfx'" and "ty @ ''_'' @ sfx = ty' @ ''_'' @ sfx'"
  shows "ty = ty' \<and> sfx = sfx'"
proof -
  have "(ty @ (''_'' @ sfx) = ty' @ (''_'' @ sfx')) = (ty = ty' \<and> ''_'' @ sfx = ''_'' @ sfx')"
    by (rule append_eq_append_conv) (simp add: assms(1))
  with assms(2) show ?thesis by simp
qed

lemma create_all_ids_distinct:
  assumes "\<forall>c \<in> set cs. length (snd (drawn c)) = 8" and "distinct (map drawn cs)"
  shows "distinct (fst (create_all cs st))"
proof -
  from assms(2) have inj: "inj_on drawn (set cs)" and dist: "distinct cs"
    by (simp_all add: distinct_map)
  have "inj_on (\<lambda>(ty, d, p, sfx, t1, t2). ty @ ''_'' @ sfx) (set cs)"
  proof (rule inj_onI)
    fix c c'
    assume c: "c \<in> set cs" and c': "c' \<in> set cs"
      and eq: "(case c of (ty, d, p, sfx, t1, t2) \<Rightarrow> ty @ ''_'' @ sfx) =
               (case c' of (ty, d, p, sfx, t1, t2) \<Rightarrow> ty @ ''_'' @ sfx)"
    obtain ty d p sfx t1 t2 where c_def: "c = (ty, d, p, sfx, t1, t2)"
      by (cases c) auto
    obtain ty' d' p' sfx' t1' t2' where c'_def: "c' = (ty', d', p', sfx', t1', t2')"
      by (cases c') auto
    from assms(1) c have "length sfx = 8"
      by (auto simp: c_def drawn_def)
    moreover from assms(1) c' have "length sfx' = 8"
      by (auto simp: c'_def drawn_def)
    ultimately have len: "length sfx = length sfx'" by simp
    from eq have "ty @ ''_'' @ sfx = ty' @ ''_'' @ sfx'"
      unfolding c_def c'_def by simp
    from task_id_inject [OF len this] have "drawn c = drawn c'"
      by (simp add: c_def c'_def drawn_def)
    from inj this c c' show "c = c'" by (rule inj_onD)
  qed
  with dist show ?thesis
    by (simp add: create_all_ids distinct_map)
qed

lemma create_task_stores:
  "map_of (tasks (snd (create_task ty d p sfx t1 t2 st))) (fst (create_task ty d p sfx t1 t2 st))
     = Some \<lparr> task_type = ty, status = PENDING, parent_id = p,
              locked_by = None, locked_at = None, completed_at = None,
              created_at = t1, data = d, task_started_at = None, updated_at = None \<rparr>"
  by (simp add: create_task_def Let_def tasks_save_state map_of_update_same)

lemma create_task_keeps_new:
  assumes "\<exists>t. map_of (tasks st) k = Some t \<and> newly_created t"
  shows "\<exists>t. map_of (tasks (snd (create_task ty d p sfx t1 t2 st))) k = Some t \<and> newly_created t"
proof (cases "k = ty @ ''_'' @ sfx")
  case True
  then show ?thesis
    by (simp add: create_task_def Let_def tasks_save_state map_of_update_same newly_created_def)
next
  case False
  with assms show ?thesis
    by (simp add: create_task_def Let_def tasks_save_state map_of_update_other)
qed

lemma create_all_keeps_new:
  "\<exists>t. map_of (tasks st) k = Some t \<and> newly_created t \<Longrightarrow>
   \<exists>t. map_of (tasks (snd (create_all cs st))) k = Some t \<and> newly_created t"
proof (induction cs arbitrary: st)
  case Nil
  then show ?case by simp
next
  case (Cons c cs)
  obtain ty d p sfx t1 t2 where c: "c = (ty, d, p, sfx, t1, t2)"
    by (cases c) auto
  from Cons.IH [OF create_task_keeps_new [OF Cons.prems, of ty d p sfx t1 t2]]
  show ?case unfolding c create_all_Cons by simp
qed

lemma create_all_new:
  "k \<in> set (fst (create_all cs st)) \<Longrightarrow>
   \<exists>t. map_of (tasks (snd (create_all cs st))) k = Some t \<and> newly_created t"
proof (induction cs arbitrary: st)
  case Nil
  then show ?case by simp
next
  case (Cons c cs)
  obtain ty d p sfx t1 t2 where c: "c = (ty, d, p, sfx, t1, t2)"
    by (cases c) auto
  let ?r = "create_task ty d p sfx t1 t2 st"
  from Cons.prems consider "k = fst ?r" | "k \<in> set (fst (create_all cs (snd ?r)))"
    unfolding c create_all_Cons by auto
  then show ?case
  proof cases
    case 1
    have "\<exists>t. map_of (tasks (snd ?r)) k = Some t \<and> newly_created t"
      unfolding 1 by (simp add: create_task_stores newly_created_def)
    from create_all_keeps_new [OF this, of cs] show ?thesis
      unfolding c create_all_Cons by simp
  next
    case 2
    from Cons.IH [OF this] show ?thesis
      unfolding c create_all_Cons by simp
  qed
qed

text \<open>
  C8. Every \<^verbatim>\<open>create_task\<close> call stores, under the id it returns, a task that is
  pending with \<^verbatim>\<open>locked_by\<close>, \<^verbatim>\<open>locked_at\<close> and \<^verbatim>\<open>completed_at\<close>
  empty, whatever \<^verbatim>\<open>parent_id\<close> it is given, and after a batch of creations every
  returned id names such a task. The returned ids of a batch are pairwise different
  when no two creations of the same type draw the same eight-digit suffix. The code does
  not check the id it draws, so two creations of one type that draw the same suffix
  return the same id, and the second replaces the task of the first: the counterexample.
\<close>

theorem created_ids_unique_when_draws_differ:
  "map_of (tasks (snd (create_task ty d p sfx t1 t2 st))) (fst (create_task ty d p sfx t1 t2 st))
     = Some \<lparr> task_type = ty, status = PENDING, parent_id = p,
              locked_by = None, locked_at = None, completed_at = None,
              created_at = t1, data = d, task_started_at = None, updated_at = None \<rparr> \<and>
   (\<forall>k \<in> set (fst (create_all cs st)).
      \<exists>t. map_of (tasks (snd (create_all cs st))) k = Some t \<and> newly_created t) \<and>
   ((\<forall>c \<in> set cs. length (snd (drawn c)) = 8) \<and> distinct (map drawn cs) \<longrightarrow>
      distinct (fst (create_all cs st)))"
  by (simp add: create_task_stores create_all_new create_all_ids_distinct)

theorem created_ids_unique_when_draws_differ_witness:
  "list_all (\<lambda>c. length (snd (drawn c)) = 8) two_creations \<and>
   distinct (map drawn two_creations) \<and>
   distinct (fst (create_all two_creations store0)) \<and>
   list_all (\<lambda>k. \<exists>t. map_of (tasks (snd (create_all two_creations store0))) k = Some t \<and>
                    newly_created t)
     (fst (create_all two_creations store0)) \<and>
   map_of (tasks (snd (create_task ''seed_dp'' [] (Some ''no_such_task'') ''0f0f0f0f'' 20 21 store0)))
      (fst (create_task ''seed_dp'' [] (Some ''no_such_task'') ''0f0f0f0f'' 20 21 store0))
     = Some \<lparr> task_type = ''seed_dp'', status = PENDING, parent_id = Some ''no_such_task'',
              locked_by = None, locked_at = None, completed_at = None,
              created_at = 20, data = [], task_started_at = None, updated_at = None \<rparr>"
proof -
  have len: "list_all (\<lambda>c. length (snd (drawn c)) = 8) two_creations"
    by code_simp
  have dist: "distinct (map drawn two_creations)"
    by code_simp
  from len have len': "\<forall>c \<in> set two_creations. length (snd (drawn c)) = 8"
    by (simp add: list_all_iff)
  note inst = created_ids_unique_when_draws_differ [of "''seed_dp''" "[]" "Some ''no_such_task''"
      "''0f0f0f0f''" 20 21 store0 two_creations]
  from inst len' dist have "distinct (fst (create_all two_creations store0))"
    by blast
  moreover from inst have "list_all (\<lambda>k. \<exists>t. map_of (tasks (snd (create_all two_creations store0))) k = Some t \<and>
                    newly_created t) (fst (create_all two_creations store0))"
    by (simp add: list_all_iff)
  ultimately show ?thesis using len dist inst by blast
qed

theorem created_ids_unique_counterexample:
  "list_all (\<lambda>c. length (snd (drawn c)) = 8) colliding_creations \<and>
   fst (create_all colliding_creations store0) = [''seed_dp_ab12cd34'', ''seed_dp_ab12cd34''] \<and>
   \<not> distinct (fst (create_all colliding_creations store0)) \<and>
   length (tasks (snd (create_all colliding_creations store0))) = 1"
  by code_simp

end
